theory Spec2Isabelle
  imports Main "HOL-Library.AList" "HOL-Library.Char_ord" "HOL-Library.Multiset"
    "HOL-Library.Sublist"
begin

section \<open>The benchmark log correlator of \<open>fff-bench/scripts/analyze_compress_log.py\<close>\<close>

text \<open>
  The script reads two benchmark logs, correlates on every line a workload header with
  three per-system measurements, collects the committed rows in one dictionary and writes
  it as a CSV file. The model below follows the script function by function. Text is a
  list of characters, each one of the code points below 256; the character classes
  (\<open>\w\<close>, \<open>\d\<close>, the white space of \<open>strip\<close>) are Python's on these code points, so
  the model describes the script on logs of such text. The contents of the two log files
  are inputs of the model (a missing file ends the script before any of the modelled code).
\<close>

subsection \<open>The patterns of the script and \<open>Pattern.search\<close>\<close>

text \<open>
  Every pattern compiled by the script is a sequence of single characters and character
  classes, some of them under a greedy \<open>+\<close>, around exactly one group of the shape
  \<open>(c+)\<close>. An \<open>atom\<close> is what matches one character: a literal, the dot, \<open>\w\<close>,
  \<open>\d\<close> and the set \<open>[\d.]\<close>.
\<close>

datatype atom = Chr char | Dot | Word | Digit | DigitOrDot

datatype item = One atom | Plus atom

record pattern =
  before :: "item list"
  group1 :: atom
  after :: "item list"

definition is_digit :: "char \<Rightarrow> bool" where
  "is_digit c = (CHR ''0'' \<le> c \<and> c \<le> CHR ''9'')"

definition is_word :: "char \<Rightarrow> bool" where
  "is_word c = ((CHR ''a'' \<le> c \<and> c \<le> CHR ''z'') \<or> (CHR ''A'' \<le> c \<and> c \<le> CHR ''Z'')
     \<or> is_digit c \<or> c = CHR ''_''
     \<or> c \<in> {CHR 0xAA, CHR 0xB2, CHR 0xB3, CHR 0xB5, CHR 0xB9, CHR 0xBA, CHR 0xBC, CHR 0xBD,
          CHR 0xBE}
     \<or> (CHR 0xC0 \<le> c \<and> c \<le> CHR 0xD6) \<or> (CHR 0xD8 \<le> c \<and> c \<le> CHR 0xF6)
     \<or> CHR 0xF8 \<le> c)"

fun atom_ok :: "atom \<Rightarrow> char \<Rightarrow> bool" where
  "atom_ok (Chr d) c = (c = d)"
| "atom_ok Dot c = (c \<noteq> CHR 0x0A)"
| "atom_ok Word c = is_word c"
| "atom_ok Digit c = is_digit c"
| "atom_ok DigitOrDot c = (is_digit c \<or> c = CHR ''.'')"

text \<open>
  A greedy \<open>+\<close> first takes the longest run of matching characters and gives characters
  back one at a time, down to one, until the rest of the pattern matches:
  \<open>try_lengths f n\<close> is the first success among \<open>f n\<close>, \<open>f (n - 1)\<close>, ..., \<open>f 1\<close>.
\<close>

fun try_lengths :: "(nat \<Rightarrow> 'a option) \<Rightarrow> nat \<Rightarrow> 'a option" where
  "try_lengths f 0 = None"
| "try_lengths f (Suc n) = (case f (Suc n) of Some r \<Rightarrow> Some r | None \<Rightarrow> try_lengths f n)"

definition run_length :: "atom \<Rightarrow> string \<Rightarrow> nat" where
  "run_length a s = length (takeWhile (atom_ok a) s)"

text \<open>Matching a sequence of items at the start of \<open>s\<close>, then the continuation \<open>k\<close>.\<close>

primrec match_items :: "item list \<Rightarrow> (string \<Rightarrow> 'a option) \<Rightarrow> string \<Rightarrow> 'a option" where
  "match_items [] k s = k s"
| "match_items (i # is) k s =
     (case i of
        One a \<Rightarrow>
          (case s of
             [] \<Rightarrow> None
           | c # t \<Rightarrow> if atom_ok a c then match_items is k t else None)
      | Plus a \<Rightarrow> try_lengths (\<lambda>n. match_items is k (drop n s)) (run_length a s))"

text \<open>A match of the whole pattern at the start of \<open>s\<close>; the result is \<open>group(1)\<close>.\<close>

definition match_at :: "pattern \<Rightarrow> string \<Rightarrow> string option" where
  "match_at p s =
     match_items (before p)
       (\<lambda>s1. try_lengths
                (\<lambda>n. match_items (after p) (\<lambda>_. Some (take n s1)) (drop n s1))
                (run_length (group1 p) s1))
       s"

text \<open>
  \<open>pattern.search(line)\<close> followed by \<open>.group(1)\<close>: the match at the leftmost position
  that has one, \<open>None\<close> when no position has.
\<close>

fun search :: "pattern \<Rightarrow> string \<Rightarrow> string option" where
  "search p [] = match_at p []"
| "search p (c # cs) =
     (case match_at p (c # cs) of Some g \<Rightarrow> Some g | None \<Rightarrow> search p cs)"

definition lit :: "string \<Rightarrow> item list" where
  "lit s = map (\<lambda>c. One (Chr c)) s"

text \<open>\<^verbatim>\<open>re.compile(r'/parquet/(\w+).parquet')\<close>; the dot is not escaped in the script.\<close>

definition workload_pattern :: pattern where
  "workload_pattern =
     \<lparr>before = lit ''/parquet/'', group1 = Word, after = One Dot # lit ''parquet''\<rparr>"

text \<open>The three patterns of each pass, in the order parquet, vortex, lance.\<close>

record patterns =
  parquet_pattern :: pattern
  vortex_pattern :: pattern
  lance_pattern :: pattern

definition size_tail :: "item list" where
  "size_tail = lit '' MB, '' @ [Plus Digit, One (Chr CHR ''B'')]"

definition size_patterns :: patterns where
  "size_patterns =
     \<lparr>parquet_pattern =
        \<lparr>before = lit ''Parquet size: '', group1 = DigitOrDot, after = size_tail\<rparr>,
      vortex_pattern =
        \<lparr>before = lit ''Vortex size: '', group1 = DigitOrDot, after = size_tail\<rparr>,
      lance_pattern =
        \<lparr>before = lit ''Lance directory aggregate size: '', group1 = DigitOrDot,
         after = size_tail\<rparr>\<rparr>"

definition scan_patterns :: patterns where
  "scan_patterns =
     \<lparr>parquet_pattern =
        \<lparr>before = lit ''Reading parquet file took '', group1 = DigitOrDot, after = lit ''ms''\<rparr>,
      vortex_pattern =
        \<lparr>before = lit ''Reading vortex file took '', group1 = DigitOrDot, after = lit ''ms''\<rparr>,
      lance_pattern =
        \<lparr>before = lit ''Reading lance file took '', group1 = DigitOrDot, after = lit ''ms''\<rparr>\<rparr>"

subsection \<open>\<open>str.strip\<close> and \<open>str.split\<close>\<close>

definition is_space :: "char \<Rightarrow> bool" where
  "is_space c = (c \<in> {CHR '' '', CHR 0x09, CHR 0x0A, CHR 0x0B, CHR 0x0C, CHR 0x0D,
     CHR 0x1C, CHR 0x1D, CHR 0x1E, CHR 0x1F, CHR 0x85, CHR 0xA0})"

definition strip :: "string \<Rightarrow> string" where
  "strip s = rev (dropWhile is_space (rev (dropWhile is_space s)))"

text \<open>\<open>s.split('\n')\<close>: the pieces between newlines; the empty text has one empty piece.\<close>

fun split_lines :: "string \<Rightarrow> string list" where
  "split_lines [] = [[]]"
| "split_lines (c # cs) =
     (if c = CHR 0x0A then [] # split_lines cs
      else (case split_lines cs of
              [] \<Rightarrow> [[c]]
            | l # ls \<Rightarrow> (c # l) # ls))"

subsection \<open>The result table\<close>

text \<open>
  \<open>data\<close> is a dictionary from workload to row, and a row a dictionary from field name to
  text. A Python dictionary keeps its keys in the order of their first insertion, and the
  CSV is written in that order, so both are association lists: \<open>AList.update\<close> replaces
  the value of a key in place and appends a new key at the end, as an assignment
  \<open>d[k] = v\<close> does.
\<close>

type_synonym row = "(string \<times> string) list"
type_synonym table = "(string \<times> row) list"

datatype metric = SIZE | SCAN_TIME

definition setdefault :: "('k \<times> 'v) list \<Rightarrow> 'k \<Rightarrow> 'v \<Rightarrow> ('k \<times> 'v) list" where
  "setdefault d k v = (if k \<in> fst ` set d then d else d @ [(k, v)])"

text \<open>
  \<open>data[w][k] = v\<close>, where \<open>w\<close> is a key of \<open>data\<close>: the row of \<open>w\<close> is changed in
  place. The script makes this assignment only after \<open>data.setdefault(w, {})\<close>, so the
  \<open>KeyError\<close> of a missing \<open>w\<close> cannot arise.
\<close>

definition set_field :: "table \<Rightarrow> string \<Rightarrow> string \<Rightarrow> string \<Rightarrow> table" where
  "set_field data w k v = AList.map_entry w (AList.update k v) data"

text \<open>
  Lines 35 to 46 of the script: the row of the current workload is created when it is
  missing and receives the workload and the three values under the names of the metric.
  \<open>Metric\<close> has exactly two members, so the last branch, \<open>assert False\<close>, is unreachable.
\<close>

definition commit :: "metric \<Rightarrow> table \<Rightarrow> string \<Rightarrow> string \<Rightarrow> string \<Rightarrow> string \<Rightarrow> table" where
  "commit m data w p v l =
     (let d0 = setdefault data w [];
          d1 = set_field d0 w ''workload'' w
      in case m of
           SIZE \<Rightarrow>
             set_field (set_field (set_field d1 w ''parquet_size'' p) w ''vortex_size'' v)
               w ''lance_size'' l
         | SCAN_TIME \<Rightarrow>
             set_field
               (set_field (set_field d1 w ''parquet_scan_time'' p) w ''vortex_scan_time'' v)
               w ''lance_scan_time'' l)"

subsection \<open>\<open>process_log\<close>\<close>

text \<open>The four variables that \<open>process_log\<close> carries from line to line.\<close>

record pending =
  current_workload :: "string option"
  current_parquet_metric :: "string option"
  current_vortex_metric :: "string option"
  current_lance_metric :: "string option"

definition all_none :: pending where
  "all_none = \<lparr>current_workload = None, current_parquet_metric = None,
     current_vortex_metric = None, current_lance_metric = None\<rparr>"

text \<open>\<open>if m: x = m.group(1)\<close>: the variable keeps its value when the line has no match.\<close>

definition assign_if :: "string option \<Rightarrow> string option \<Rightarrow> string option" where
  "assign_if m x = (case m of Some g \<Rightarrow> Some g | None \<Rightarrow> x)"

text \<open>Python's truth value of a variable that is \<open>None\<close> or a string.\<close>

definition truthy :: "string option \<Rightarrow> bool" where
  "truthy x = (case x of None \<Rightarrow> False | Some s \<Rightarrow> s \<noteq> [])"

text \<open>The four assignments of one line, lines 21 to 33.\<close>

definition assign_line :: "patterns \<Rightarrow> pending \<Rightarrow> string \<Rightarrow> pending" where
  "assign_line ps st line =
     \<lparr>current_workload = assign_if (search workload_pattern line) (current_workload st),
      current_parquet_metric =
        assign_if (search (parquet_pattern ps) line) (current_parquet_metric st),
      current_vortex_metric =
        assign_if (search (vortex_pattern ps) line) (current_vortex_metric st),
      current_lance_metric =
        assign_if (search (lance_pattern ps) line) (current_lance_metric st)\<rparr>"

definition complete :: "pending \<Rightarrow> bool" where
  "complete st = (truthy (current_workload st) \<and> truthy (current_parquet_metric st)
     \<and> truthy (current_vortex_metric st) \<and> truthy (current_lance_metric st))"

text \<open>The body of the loop: the assignments, then the test of line 34 with its commit.\<close>

definition step :: "patterns \<Rightarrow> metric \<Rightarrow> table \<times> pending \<Rightarrow> string \<Rightarrow> table \<times> pending" where
  "step ps m ds line =
     (let st = assign_line ps (snd ds) line
      in if complete st
         then (commit m (fst ds) (the (current_workload st)) (the (current_parquet_metric st))
                 (the (current_vortex_metric st)) (the (current_lance_metric st)),
               all_none)
         else (fst ds, st))"

text \<open>The loop over the lines, from any table and any values of the four variables.\<close>

definition process_lines ::
  "patterns \<Rightarrow> metric \<Rightarrow> table \<times> pending \<Rightarrow> string list \<Rightarrow> table \<times> pending" where
  "process_lines ps m ds lines = foldl (step ps m) ds lines"

text \<open>
  \<open>process_log\<close> on \<open>log_data\<close>, the text that \<open>file.read()\<close> returns for the log
  file: it changes the shared table \<open>data\<close> and forgets its four variables when it
  returns.
\<close>

definition process_log :: "table \<Rightarrow> string \<Rightarrow> patterns \<Rightarrow> metric \<Rightarrow> table" where
  "process_log data log_data ps m =
     fst (process_lines ps m (data, all_none) (split_lines (strip log_data)))"

subsection \<open>Writing the CSV file\<close>

definition fieldnames :: "string list" where
  "fieldnames = [''workload'', ''parquet_size'', ''vortex_size'', ''lance_size'',
     ''lance_scan_time'', ''parquet_scan_time'', ''vortex_scan_time'']"

text \<open>
  \<open>csv.writer\<close> with its default dialect: fields joined by commas, a line ended by
  carriage return and line feed, a field in double quotes (its own double quotes doubled)
  exactly when it holds a comma, a double quote, a carriage return or a line feed; a line
  that would be empty is written as one quoted empty field.
\<close>

definition needs_quote :: "string \<Rightarrow> bool" where
  "needs_quote s = list_ex (\<lambda>c. c \<in> {CHR '','', CHR 0x22, CHR 0x0D, CHR 0x0A}) s"

definition quote_field :: "string \<Rightarrow> string" where
  "quote_field s =
     (if needs_quote s
      then [CHR 0x22] @ concat (map (\<lambda>c. if c = CHR 0x22 then [c, c] else [c]) s) @ [CHR 0x22]
      else s)"

fun join_fields :: "string list \<Rightarrow> string" where
  "join_fields [] = []"
| "join_fields [x] = x"
| "join_fields (x # y # ys) = x @ [CHR '',''] @ join_fields (y # ys)"

definition csv_line :: "string list \<Rightarrow> string" where
  "csv_line cells =
     (let t = join_fields (map quote_field cells)
      in (if cells \<noteq> [] \<and> t = [] then [CHR 0x22, CHR 0x22] else t) @ [CHR 0x0D, CHR 0x0A])"

text \<open>
  \<open>csv.DictWriter(csvfile, fieldnames)\<close>: a row with a key that is not a field name
  raises \<open>ValueError\<close>; a field name that is not a key of the row gives the empty text.
\<close>

datatype error = ValueError

definition dict_to_list :: "row \<Rightarrow> error + string list" where
  "dict_to_list r =
     (if list_ex (\<lambda>k. k \<notin> set fieldnames) (map fst r) then Inl ValueError
      else Inr (map (\<lambda>f. case map_of r f of None \<Rightarrow> [] | Some v \<Rightarrow> v) fieldnames))"

definition writerow :: "row \<Rightarrow> error + string" where
  "writerow r = (case dict_to_list r of Inl e \<Rightarrow> Inl e | Inr cells \<Rightarrow> Inr (csv_line cells))"

definition writeheader :: "error + string" where
  "writeheader = writerow (zip fieldnames fieldnames)"

text \<open>
  \<open>for wl in data: writer.writerow(data[wl])\<close>; the first error ends the loop. The keys
  of a dictionary are distinct, so \<open>data[wl]\<close> is the row listed with \<open>wl\<close>.
\<close>

fun write_rows :: "table \<Rightarrow> error + string" where
  "write_rows [] = Inr []"
| "write_rows ((wl, r) # rest) =
     (case writerow r of
        Inl e \<Rightarrow> Inl e
      | Inr t \<Rightarrow> (case write_rows rest of Inl e \<Rightarrow> Inl e | Inr ts \<Rightarrow> Inr (t @ ts)))"

definition write_csv :: "table \<Rightarrow> error + string" where
  "write_csv data =
     (case writeheader of
        Inl e \<Rightarrow> Inl e
      | Inr h \<Rightarrow> (case write_rows data of Inl e \<Rightarrow> Inl e | Inr ts \<Rightarrow> Inr (h @ ts)))"

subsection \<open>\<open>get_result_csv\<close>\<close>

text \<open>
  The two passes over the shared table, lines 49 to 57: the size pass on the text of
  \<open>compress_bench.log\<close>, then the scan-time pass on the text of \<open>scan_bench.log\<close>.
\<close>

definition result_table :: "string \<Rightarrow> string \<Rightarrow> table" where
  "result_table compress_log scan_log =
     process_log (process_log [] compress_log size_patterns SIZE) scan_log
       scan_patterns SCAN_TIME"

text \<open>The text written to the result file, or the error that ends the script.\<close>

definition get_result_csv :: "string \<Rightarrow> string \<Rightarrow> error + string" where
  "get_result_csv compress_log scan_log = write_csv (result_table compress_log scan_log)"

subsection \<open>Reading the CSV file back\<close>

text \<open>
  Modelled from the spec: the parser that reads the CSV text back into rows. The script
  reads the file with \<open>pandas.read_csv\<close>, a library that is not part of the repository;
  the specification speaks of re-parsing the CSV back into rows, with an empty cell standing
  for an absent field. The text is a sequence of records, each ended by carriage return and
  line feed; a record is a sequence of fields separated by commas; a field in double quotes
  ends at the first double quote that is not doubled, and a doubled one stands for one; any
  other field ends before the next comma, carriage return or line feed. The first record
  names the fields, and every other record gives a row: its non-empty cells under the
  names of the first record.
\<close>

fun parse_quoted :: "string \<Rightarrow> (string \<times> string) option" where
  "parse_quoted [] = None"
| "parse_quoted [c] = (if c = CHR 0x22 then Some ([], []) else None)"
| "parse_quoted (c # d # ds) =
     (if c \<noteq> CHR 0x22
      then (case parse_quoted (d # ds) of None \<Rightarrow> None | Some (f, r) \<Rightarrow> Some (c # f, r))
      else if d = CHR 0x22
      then (case parse_quoted ds of None \<Rightarrow> None | Some (f, r) \<Rightarrow> Some (CHR 0x22 # f, r))
      else Some ([], d # ds))"

text \<open>Modelled from the spec: the characters that end a field written without quotes.\<close>

definition ends_field :: "char \<Rightarrow> bool" where
  "ends_field c = (c = CHR '','' \<or> c = CHR 0x0D \<or> c = CHR 0x0A)"

text \<open>
  Modelled from the spec: one field at the start of the text, quoted or not, and the text
  after it.
\<close>

definition parse_field :: "string \<Rightarrow> (string \<times> string) option" where
  "parse_field s =
     (case s of
        [] \<Rightarrow> Some ([], [])
      | c # cs \<Rightarrow>
          if c = CHR 0x22 then parse_quoted cs
          else Some (takeWhile (\<lambda>c. \<not> ends_field c) s, dropWhile (\<lambda>c. \<not> ends_field c) s))"

text \<open>
  Modelled from the spec: one record, its fields separated by commas, up to and with the
  carriage return and line feed that end it, and the text after it.
\<close>

function parse_record :: "string \<Rightarrow> (string list \<times> string) option" where
  "parse_record s =
     (case parse_field s of
        None \<Rightarrow> None
      | Some (f, r) \<Rightarrow>
          (case r of
             [] \<Rightarrow> None
           | c # r' \<Rightarrow>
               if c = CHR '',''
               then (case parse_record r' of
                       None \<Rightarrow> None
                     | Some (fs, r'') \<Rightarrow> Some (f # fs, r''))
               else if c = CHR 0x0D
               then (case r' of
                       [] \<Rightarrow> None
                     | d # r'' \<Rightarrow> if d = CHR 0x0A then Some ([f], r'') else None)
               else None))"
  by pat_completeness auto
termination
proof (relation "measure length")
  have quoted: "parse_quoted s = Some (f, r) \<Longrightarrow> length r \<le> length s" for s f r
    by (induction s arbitrary: f r rule: parse_quoted.induct)
      (auto split: if_splits option.splits)
  have field: "length r \<le> length s" if "parse_field s = Some (f, r)" for s f r
  proof (cases s)
    case Nil
    with that show ?thesis by (simp add: parse_field_def)
  next
    case (Cons c cs)
    show ?thesis
    proof (cases "c = CHR 0x22")
      case True
      with Cons that have "parse_quoted cs = Some (f, r)" by (simp add: parse_field_def)
      from quoted [OF this] Cons show ?thesis by simp
    next
      case False
      with Cons that have "r = dropWhile (\<lambda>c. \<not> ends_field c) s"
        by (simp add: parse_field_def)
      then show ?thesis by (simp add: length_dropWhile_le)
    qed
  qed
  show "wf (measure length)" by simp
  show "\<And>s x2 x y x21 x22. parse_field s = Some x2 \<Longrightarrow> (x, y) = x2 \<Longrightarrow> y = x21 # x22
      \<Longrightarrow> x21 = CHR '','' \<Longrightarrow> (x22, s) \<in> measure length"
    using field by fastforce
qed

declare parse_record.simps [simp del]

text \<open>Modelled from the spec: the records of a text, to its end.\<close>

function parse_records :: "string \<Rightarrow> string list list option" where
  "parse_records s =
     (if s = [] then Some []
      else (case parse_record s of
              None \<Rightarrow> None
            | Some (fs, r) \<Rightarrow>
                (case parse_records r of None \<Rightarrow> None | Some rs \<Rightarrow> Some (fs # rs))))"
  by pat_completeness auto
termination
proof (relation "measure length")
  have quoted: "parse_quoted s = Some (f, r) \<Longrightarrow> length r \<le> length s" for s f r
    by (induction s arbitrary: f r rule: parse_quoted.induct)
      (auto split: if_splits option.splits)
  have field: "length r \<le> length s" if "parse_field s = Some (f, r)" for s f r
  proof (cases s)
    case Nil
    with that show ?thesis by (simp add: parse_field_def)
  next
    case (Cons c cs)
    show ?thesis
    proof (cases "c = CHR 0x22")
      case True
      with Cons that have "parse_quoted cs = Some (f, r)" by (simp add: parse_field_def)
      from quoted [OF this] Cons show ?thesis by simp
    next
      case False
      with Cons that have "r = dropWhile (\<lambda>c. \<not> ends_field c) s"
        by (simp add: parse_field_def)
      then show ?thesis by (simp add: length_dropWhile_le)
    qed
  qed
  have shorter: "parse_record s = Some (fs, r) \<Longrightarrow> length r < length s" for s fs r
  proof (induction s arbitrary: fs r rule: parse_record.induct)
    case (1 s)
    from "1.prems" obtain f r0 where pf: "parse_field s = Some (f, r0)"
      by (subst (asm) parse_record.simps) (auto split: option.splits)
    from "1.prems" pf obtain c r' where r0: "r0 = c # r'"
      by (subst (asm) parse_record.simps) (auto split: list.splits)
    from field [OF pf] r0 have len: "length r' < length s" by simp
    show ?case
    proof (cases "c = CHR '',''")
      case True
      with "1.prems" pf r0 obtain fs' where "parse_record r' = Some (fs', r)"
        by (subst (asm) parse_record.simps) (auto split: option.splits)
      from "1.IH" [OF pf refl r0 True this] len show ?thesis by simp
    next
      case False
      with "1.prems" pf r0 obtain d where "r' = d # r"
        by (subst (asm) parse_record.simps) (auto split: list.splits if_splits)
      with len show ?thesis by simp
    qed
  qed
  show "wf (measure length)" by simp
  show "\<And>s x2 x y. s \<noteq> [] \<Longrightarrow> parse_record s = Some x2 \<Longrightarrow> (x, y) = x2
      \<Longrightarrow> (y, s) \<in> measure length"
    using shorter by fastforce
qed

declare parse_records.simps [simp del]

text \<open>
  Modelled from the spec: the rows of the text. The first record names the fields; an
  empty cell is an absent field.
\<close>

definition read_csv :: "string \<Rightarrow> row list option" where
  "read_csv text =
     (case parse_records text of
        None \<Rightarrow> None
      | Some [] \<Rightarrow> None
      | Some (header # records) \<Rightarrow>
          Some (map (\<lambda>cells. filter (\<lambda>(k, v). v \<noteq> []) (zip header cells)) records))"

subsection \<open>Notions used in the statements\<close>




text \<open>\<open>data[w].get(f)\<close>, and \<open>None\<close> as well when \<open>data\<close> has no row for \<open>w\<close>.\<close>

definition cell :: "table \<Rightarrow> string \<Rightarrow> string \<Rightarrow> string option" where
  "cell data w f = (case map_of data w of None \<Rightarrow> None | Some r \<Rightarrow> map_of r f)"

text \<open>The four assignments of a commit, as the pairs of field name and value.\<close>

definition assigned :: "metric \<Rightarrow> string \<Rightarrow> string \<Rightarrow> string \<Rightarrow> string \<Rightarrow> row" where
  "assigned m w p v l =
     (case m of
        SIZE \<Rightarrow> [(''workload'', w), (''parquet_size'', p), (''vortex_size'', v), (''lance_size'', l)]
      | SCAN_TIME \<Rightarrow> [(''workload'', w), (''parquet_scan_time'', p), (''vortex_scan_time'', v),
          (''lance_scan_time'', l)])"

text \<open>
  The four variables all hold a value; and none of them holds the empty text, which is
  what makes \<open>complete\<close>, the truth test of line 34, the same as \<open>all_set\<close>.
\<close>

definition all_set :: "pending \<Rightarrow> bool" where
  "all_set st = (current_workload st \<noteq> None \<and> current_parquet_metric st \<noteq> None
     \<and> current_vortex_metric st \<noteq> None \<and> current_lance_metric st \<noteq> None)"

definition no_empty_text :: "pending \<Rightarrow> bool" where
  "no_empty_text st = (current_workload st \<noteq> Some [] \<and> current_parquet_metric st \<noteq> Some []
     \<and> current_vortex_metric st \<noteq> Some [] \<and> current_lance_metric st \<noteq> Some [])"

text \<open>The field names that a commit of the metric assigns.\<close>

definition metric_fields :: "metric \<Rightarrow> string list" where
  "metric_fields m =
     (case m of
        SIZE \<Rightarrow> [''workload'', ''parquet_size'', ''vortex_size'', ''lance_size'']
      | SCAN_TIME \<Rightarrow> [''workload'', ''parquet_scan_time'', ''vortex_scan_time'',
          ''lance_scan_time''])"

text \<open>
  Text that \<open>csv.writer\<close> writes as it is, without quotes; tables whose rows have only
  field names as keys and only such text as values; the same for the four variables; and
  the groups \<open>(\w+)\<close>, \<open>(\d+)\<close> and \<open>([\d.]+)\<close>, which match such text only.
\<close>

definition plain :: "string \<Rightarrow> bool" where
  "plain s = (\<not> needs_quote s)"

definition plain_rows :: "table \<Rightarrow> bool" where
  "plain_rows d = list_all (\<lambda>(w, r). list_all (\<lambda>(k, v). k \<in> set fieldnames \<and> plain v) r) d"

definition plain_pending :: "pending \<Rightarrow> bool" where
  "plain_pending st = (list_all (\<lambda>x. case x of None \<Rightarrow> True | Some g \<Rightarrow> plain g)
     [current_workload st, current_parquet_metric st, current_vortex_metric st,
      current_lance_metric st])"

definition plain_atom :: "atom \<Rightarrow> bool" where
  "plain_atom a = (a = Word \<or> a = Digit \<or> a = DigitOrDot)"

definition plain_patterns :: "patterns \<Rightarrow> bool" where
  "plain_patterns ps = (plain_atom (group1 (parquet_pattern ps))
     \<and> plain_atom (group1 (vortex_pattern ps)) \<and> plain_atom (group1 (lance_pattern ps)))"

text \<open>
  The rows that the loop commits on the lines, in order, each as the workload and the
  three values: the loop of \<open>process_log\<close> without its table. \<open>commit_all\<close> makes
  these commits on a table.
\<close>

type_synonym cluster = "string \<times> string \<times> string \<times> string"

fun commits :: "patterns \<Rightarrow> pending \<Rightarrow> string list \<Rightarrow> cluster list" where
  "commits ps st [] = []"
| "commits ps st (line # lines) =
     (let st' = assign_line ps st line
      in if complete st'
         then (the (current_workload st'), the (current_parquet_metric st'),
               the (current_vortex_metric st'), the (current_lance_metric st'))
              # commits ps all_none lines
         else commits ps st' lines)"

fun commit_all :: "metric \<Rightarrow> table \<Rightarrow> cluster list \<Rightarrow> table" where
  "commit_all m d [] = d"
| "commit_all m d ((w, p, v, l) # cs) = commit_all m (commit m d w p v l) cs"

text \<open>\<open>row.get(f, '')\<close>: the text of a field, empty when the row does not have it.\<close>

definition field_text :: "row \<Rightarrow> string \<Rightarrow> string" where
  "field_text r f = (case map_of r f of None \<Rightarrow> [] | Some v \<Rightarrow> v)"

section \<open>Properties\<close>

subsection \<open>A group is never empty\<close>

lemma try_lengths_Some:
  "try_lengths f n = Some r \<Longrightarrow> \<exists>j. 0 < j \<and> j \<le> n \<and> f j = Some r"
proof (induction n)
  case 0
  then show ?case by simp
next
  case (Suc n)
  show ?case
  proof (cases "f (Suc n)")
    case None
    with Suc.prems have "try_lengths f n = Some r" by simp
    with Suc.IH obtain j where "0 < j" "j \<le> n" "f j = Some r" by blast
    then show ?thesis by (intro exI [of _ j]) simp
  next
    case (Some a)
    with Suc.prems have "f (Suc n) = Some r" by simp
    then show ?thesis by (intro exI [of _ "Suc n"]) simp
  qed
qed

lemma match_items_Some:
  "match_items is k s = Some r \<Longrightarrow> \<exists>s'. length s' \<le> length s \<and> k s' = Some r"
proof (induction "is" arbitrary: s)
  case Nil
  then show ?case by auto
next
  case (Cons i "is")
  show ?case
  proof (cases i)
    case (One a)
    with Cons.prems obtain c t where s: "s = c # t" and "match_items is k t = Some r"
      by (auto split: list.splits if_splits)
    with Cons.IH obtain s' where "length s' \<le> length t" "k s' = Some r" by blast
    with s show ?thesis by (intro exI [of _ s']) simp
  next
    case (Plus a)
    with Cons.prems have "try_lengths (\<lambda>n. match_items is k (drop n s)) (run_length a s) = Some r"
      by simp
    from try_lengths_Some [OF this] obtain j where "match_items is k (drop j s) = Some r"
      by blast
    with Cons.IH obtain s' where "length s' \<le> length (drop j s)" "k s' = Some r" by blast
    then show ?thesis by (intro exI [of _ s']) simp
  qed
qed

lemma match_at_Some:
  assumes "match_at p s = Some g"
  shows "g \<noteq> [] \<and> length g \<le> length s"
proof -
  from match_items_Some [OF assms [unfolded match_at_def]]
  obtain s1 where len: "length s1 \<le> length s"
    and "try_lengths (\<lambda>n. match_items (after p) (\<lambda>_. Some (take n s1)) (drop n s1))
      (run_length (group1 p) s1) = Some g" by blast
  from try_lengths_Some [OF this(2)] obtain j where j: "0 < j" "j \<le> run_length (group1 p) s1"
    and "match_items (after p) (\<lambda>_. Some (take j s1)) (drop j s1) = Some g" by blast
  from match_items_Some [OF this(3)] have g: "g = take j s1" by auto
  have "run_length (group1 p) s1 \<le> length s1"
    unfolding run_length_def by (rule length_takeWhile_le)
  with j g len show ?thesis by auto
qed

lemma match_at_nonempty: "match_at p s = Some g \<Longrightarrow> g \<noteq> []"
  by (simp add: match_at_Some)

lemma search_empty: "search p [] = None"
proof (cases "match_at p []")
  case None
  then show ?thesis by simp
next
  case (Some g)
  from match_at_Some [OF this] show ?thesis by simp
qed

lemma search_nonempty: "search p s = Some g \<Longrightarrow> g \<noteq> []"
  by (induction s) (auto split: option.splits dest: match_at_nonempty)

subsection \<open>The four variables between two commits\<close>






lemma process_lines_snoc:
  "process_lines ps m ds (ls @ [x]) = step ps m (process_lines ps m ds ls) x"
  by (simp add: process_lines_def)

lemma process_lines_append:
  "process_lines ps m ds (ls @ ls') = process_lines ps m (process_lines ps m ds ls) ls'"
  by (simp add: process_lines_def)





lemma assign_if_no_empty: "x \<noteq> Some [] \<Longrightarrow> assign_if (search p line) x \<noteq> Some []"
  by (auto simp: assign_if_def split: option.splits dest: search_nonempty)

lemma assign_line_no_empty: "no_empty_text st \<Longrightarrow> no_empty_text (assign_line ps st line)"
  by (simp add: no_empty_text_def assign_line_def assign_if_no_empty)

lemma truthy_iff: "x \<noteq> Some [] \<Longrightarrow> truthy x \<longleftrightarrow> x \<noteq> None"
  by (cases x) (auto simp: truthy_def)

lemma complete_iff_all_set: "no_empty_text st \<Longrightarrow> complete st \<longleftrightarrow> all_set st"
  by (simp add: no_empty_text_def complete_def all_set_def truthy_iff)

lemma all_none_props: "no_empty_text all_none" "\<not> all_set all_none"
  by (simp_all add: no_empty_text_def all_set_def all_none_def)

lemma step_keeps:
  assumes "no_empty_text (snd ds)"
  shows "no_empty_text (snd (step ps m ds line)) \<and> \<not> all_set (snd (step ps m ds line))"
proof -
  let ?st = "assign_line ps (snd ds) line"
  have ne: "no_empty_text ?st" using assms by (rule assign_line_no_empty)
  show ?thesis
  proof (cases "complete ?st")
    case True
    then show ?thesis by (simp add: step_def Let_def all_none_props)
  next
    case False
    with ne have "\<not> all_set ?st" by (simp add: complete_iff_all_set)
    with False ne show ?thesis by (simp add: step_def Let_def)
  qed
qed

lemma run_keeps:
  "no_empty_text (snd (process_lines ps m (data, all_none) ls))
   \<and> \<not> all_set (snd (process_lines ps m (data, all_none) ls))"
proof (induction ls rule: rev_induct)
  case Nil
  then show ?case by (simp add: process_lines_def all_none_props)
next
  case (snoc x ls)
  then show ?case by (simp add: process_lines_snoc step_keeps)
qed








subsection \<open>The table under a commit\<close>

lemma keys_map_entry: "map fst (AList.map_entry k f xs) = map fst xs"
  by (induction xs) auto

lemma keys_set_field: "map fst (set_field d w k v) = map fst d"
  by (simp add: set_field_def keys_map_entry)

lemma keys_setdefault:
  "map fst (setdefault d w r) = (if w \<in> set (map fst d) then map fst d else map fst d @ [w])"
  by (simp add: setdefault_def)

lemma commit_keys:
  "map fst (commit m d w p v l) = (if w \<in> set (map fst d) then map fst d else map fst d @ [w])"
  by (cases m) (simp_all add: commit_def Let_def keys_set_field keys_setdefault)

lemma map_of_setdefault:
  "map_of (setdefault d w r) w' =
     (if w' = w \<and> map_of d w = None then Some r else map_of d w')"
proof -
  have "w \<in> fst ` set d \<longleftrightarrow> map_of d w \<noteq> None"
    by (simp add: map_of_eq_None_iff)
  then show ?thesis
    by (cases "map_of d w'") (auto simp: setdefault_def map_add_def)
qed

lemma cell_setdefault: "cell (setdefault d w []) w' f = cell d w' f"
  by (simp add: cell_def map_of_setdefault)

lemma cell_set_field:
  "cell (set_field d w k v) w' f =
     (if w' = w \<and> f = k \<and> map_of d w \<noteq> None then Some v else cell d w' f)"
  by (auto simp: cell_def set_field_def map_of_map_entry update_conv' split: option.splits)

lemma has_row_set_field: "map_of (set_field d w k v) w' = None \<longleftrightarrow> map_of d w' = None"
  by (auto simp: set_field_def map_of_map_entry split: option.splits)

lemma has_row_setdefault: "map_of (setdefault d w r) w \<noteq> None"
  by (simp add: map_of_setdefault)

lemma cell_commit:
  "cell (commit m d w p v l) w' f =
     (if w' = w
      then (case map_of (assigned m w p v l) f of Some x \<Rightarrow> Some x | None \<Rightarrow> cell d w f)
      else cell d w' f)"
  by (cases m)
    (simp_all add: commit_def Let_def assigned_def cell_set_field cell_setdefault
      has_row_set_field has_row_setdefault)

subsection \<open>What every commit keeps, the loop keeps\<close>

lemma assigned_None: "map_of (assigned m w p v l) f = None \<longleftrightarrow> f \<notin> set (metric_fields m)"
  by (cases m) (auto simp: assigned_def metric_fields_def)

lemma step_cases:
  "step ps m (d, st) line = (d, assign_line ps st line)
   \<or> (\<exists>w p v l. step ps m (d, st) line = (commit m d w p v l, all_none))"
  by (auto simp: step_def Let_def)

text \<open>A property of the table that every commit keeps holds after the loop.\<close>

lemma process_lines_keeps:
  assumes "P d" and "\<And>d w p v l. P d \<Longrightarrow> P (commit m d w p v l)"
  shows "P (fst (process_lines ps m (d, st) ls))"
proof (induction ls rule: rev_induct)
  case Nil
  then show ?case using assms(1) by (simp add: process_lines_def)
next
  case (snoc x ls)
  obtain d' st' where run: "process_lines ps m (d, st) ls = (d', st')"
    by (cases "process_lines ps m (d, st) ls")
  with snoc have "P d'" by simp
  with step_cases [of ps m d' st' x] assms(2) have "P (fst (step ps m (d', st') x))"
    by auto
  with run show ?case by (simp add: process_lines_snoc)
qed

text \<open>
  The four variables do not depend on the table, and a relation between two tables that
  the same commit on both keeps holds between the results of the loop on the same lines.
\<close>

lemma process_lines_related:
  assumes "R d e" and "\<And>d e w p v l. R d e \<Longrightarrow> R (commit m d w p v l) (commit m e w p v l)"
  shows "R (fst (process_lines ps m (d, st) ls)) (fst (process_lines ps m (e, st) ls))
    \<and> snd (process_lines ps m (d, st) ls) = snd (process_lines ps m (e, st) ls)"
proof (induction ls rule: rev_induct)
  case Nil
  then show ?case using assms(1) by (simp add: process_lines_def)
next
  case (snoc x ls)
  obtain d' st' where rd: "process_lines ps m (d, st) ls = (d', st')"
    by (cases "process_lines ps m (d, st) ls")
  obtain e' st'' where re: "process_lines ps m (e, st) ls = (e', st'')"
    by (cases "process_lines ps m (e, st) ls")
  from snoc rd re have R: "R d' e'" and st: "st'' = st'" by simp_all
  show ?case
  proof (cases "complete (assign_line ps st' x)")
    case True
    with R assms(2) show ?thesis
      by (simp add: process_lines_snoc rd re st step_def Let_def)
  next
    case False
    with R show ?thesis
      by (simp add: process_lines_snoc rd re st step_def Let_def)
  qed
qed

lemma commit_key_set: "fst ` set (commit m d w p v l) = insert w (fst ` set d)"
  using arg_cong [OF commit_keys [of m d w p v l], of set] by auto

lemma commit_distinct: "distinct (map fst d) \<Longrightarrow> distinct (map fst (commit m d w p v l))"
  by (simp add: commit_keys)

lemma commit_prefix: "prefix ks (map fst d) \<Longrightarrow> prefix ks (map fst (commit m d w p v l))"
  by (auto simp: commit_keys intro: prefix_order.trans)

lemma process_lines_distinct:
  "distinct (map fst d) \<Longrightarrow> distinct (map fst (fst (process_lines ps m (d, st) ls)))"
  by (rule process_lines_keeps) (simp_all add: commit_distinct)

lemma process_lines_prefix:
  "prefix (map fst d) (map fst (fst (process_lines ps m (d, st) ls)))"
  by (rule process_lines_keeps [where P = "\<lambda>t. prefix (map fst d) (map fst t)"])
    (simp_all add: commit_prefix)

text \<open>In a table built by commits of one metric, a row has exactly the fields of the metric.\<close>

lemma commit_one_metric:
  assumes "\<forall>w f. cell d w f \<noteq> None \<longleftrightarrow> w \<in> fst ` set d \<and> f \<in> set (metric_fields m)"
  shows "\<forall>w f. cell (commit m d w0 p v l) w f \<noteq> None
    \<longleftrightarrow> w \<in> fst ` set (commit m d w0 p v l) \<and> f \<in> set (metric_fields m)"
proof (intro allI)
  fix w f
  show "cell (commit m d w0 p v l) w f \<noteq> None
    \<longleftrightarrow> w \<in> fst ` set (commit m d w0 p v l) \<and> f \<in> set (metric_fields m)"
  proof (cases "w = w0")
    case True
    show ?thesis
    proof (cases "map_of (assigned m w0 p v l) f")
      case None
      then have "f \<notin> set (metric_fields m)" by (simp add: assigned_None)
      with None assms True show ?thesis by (simp add: cell_commit)
    next
      case (Some a)
      then have "f \<in> set (metric_fields m)" using assigned_None [of m w0 p v l f] by auto
      with Some True show ?thesis by (simp add: cell_commit commit_key_set)
    qed
  next
    case False
    with assms show ?thesis by (simp add: cell_commit commit_key_set)
  qed
qed

lemma one_metric_table:
  "cell (process_log [] text ps m) w f \<noteq> None
   \<longleftrightarrow> w \<in> fst ` set (process_log [] text ps m) \<and> f \<in> set (metric_fields m)"
proof -
  have "\<forall>w f. cell (process_log [] text ps m) w f \<noteq> None
    \<longleftrightarrow> w \<in> fst ` set (process_log [] text ps m) \<and> f \<in> set (metric_fields m)"
    unfolding process_log_def
  proof (rule process_lines_keeps
        [where P = "\<lambda>d. \<forall>w f. cell d w f \<noteq> None \<longleftrightarrow> w \<in> fst ` set d \<and> f \<in> set (metric_fields m)"])
    show "\<forall>w f. cell [] w f \<noteq> None \<longleftrightarrow> w \<in> fst ` set [] \<and> f \<in> set (metric_fields m)"
      by (simp add: cell_def)
  next
    fix d w0 p v l
    assume "\<forall>w f. cell d w f \<noteq> None \<longleftrightarrow> w \<in> fst ` set d \<and> f \<in> set (metric_fields m)"
    then show "\<forall>w f. cell (commit m d w0 p v l) w f \<noteq> None
      \<longleftrightarrow> w \<in> fst ` set (commit m d w0 p v l) \<and> f \<in> set (metric_fields m)"
      by (rule commit_one_metric)
  qed
  then show ?thesis by blast
qed

lemma commit_merge:
  assumes keys: "fst ` set d = fst ` set a \<union> fst ` set e"
    and cells: "\<forall>w f. cell d w f
      = (if w \<in> fst ` set e \<and> f \<in> set (metric_fields m) then cell e w f else cell a w f)"
  shows "fst ` set (commit m d w0 p v l) = fst ` set a \<union> fst ` set (commit m e w0 p v l)
    \<and> (\<forall>w f. cell (commit m d w0 p v l) w f
      = (if w \<in> fst ` set (commit m e w0 p v l) \<and> f \<in> set (metric_fields m)
         then cell (commit m e w0 p v l) w f else cell a w f))"
proof (intro conjI allI)
  show "fst ` set (commit m d w0 p v l) = fst ` set a \<union> fst ` set (commit m e w0 p v l)"
    using keys by (simp add: commit_key_set)
next
  fix w f
  show "cell (commit m d w0 p v l) w f
      = (if w \<in> fst ` set (commit m e w0 p v l) \<and> f \<in> set (metric_fields m)
         then cell (commit m e w0 p v l) w f else cell a w f)"
  proof (cases "w = w0")
    case True
    show ?thesis
    proof (cases "map_of (assigned m w0 p v l) f")
      case None
      then have "f \<notin> set (metric_fields m)" by (simp add: assigned_None)
      with None cells True show ?thesis by (simp add: cell_commit)
    next
      case (Some a)
      then have "f \<in> set (metric_fields m)" using assigned_None [of m w0 p v l f] by auto
      with Some True show ?thesis by (simp add: cell_commit commit_key_set)
    qed
  next
    case False
    with cells show ?thesis by (simp add: cell_commit commit_key_set)
  qed
qed

lemma process_log_merge:
  "fst ` set (process_log a text ps m) = fst ` set a \<union> fst ` set (process_log [] text ps m)
   \<and> (\<forall>w f. cell (process_log a text ps m) w f
      = (if w \<in> fst ` set (process_log [] text ps m) \<and> f \<in> set (metric_fields m)
         then cell (process_log [] text ps m) w f else cell a w f))"
proof -
  let ?R = "\<lambda>d e. fst ` set d = fst ` set a \<union> fst ` set e
    \<and> (\<forall>w f. cell d w f
      = (if w \<in> fst ` set e \<and> f \<in> set (metric_fields m) then cell e w f else cell a w f))"
  have "?R a []" by simp
  moreover have "?R (commit m d w p v l) (commit m e w p v l)" if "?R d e" for d e w p v l
    using that commit_merge [of d a e m w p v l] by blast
  ultimately have "?R (fst (process_lines ps m (a, all_none) (split_lines (strip text))))
      (fst (process_lines ps m ([], all_none) (split_lines (strip text))))"
    using process_lines_related [of ?R a "[]" m ps all_none "split_lines (strip text)"]
    by blast
  then show ?thesis unfolding process_log_def .
qed

lemma process_log_distinct:
  "distinct (map fst d) \<Longrightarrow> distinct (map fst (process_log d text ps m))"
  by (simp add: process_log_def process_lines_distinct)

subsection \<open>No value of the table needs quotes\<close>

lemma match_at_group:
  assumes "match_at p s = Some g"
  shows "\<forall>c \<in> set g. atom_ok (group1 p) c"
proof -
  from match_items_Some [OF assms [unfolded match_at_def]]
  obtain s1 where "try_lengths (\<lambda>n. match_items (after p) (\<lambda>_. Some (take n s1)) (drop n s1))
      (run_length (group1 p) s1) = Some g" by blast
  from try_lengths_Some [OF this] obtain j where j: "j \<le> run_length (group1 p) s1"
    and "match_items (after p) (\<lambda>_. Some (take j s1)) (drop j s1) = Some g" by blast
  from match_items_Some [OF this(2)] have g: "g = take j s1" by auto
  have "take j s1 = take j (takeWhile (atom_ok (group1 p)) s1)"
    using j unfolding run_length_def
    by (metis append_eq_conv_conj takeWhile_dropWhile_id take_append take_all diff_is_0_eq' take_0 append_Nil2 le_refl)
  then have "set g \<subseteq> set (takeWhile (atom_ok (group1 p)) s1)"
    using g by (metis set_take_subset)
  then show ?thesis by (auto dest: set_takeWhileD)
qed

lemma search_group: "search p s = Some g \<Longrightarrow> \<forall>c \<in> set g. atom_ok (group1 p) c"
  by (induction s) (auto split: option.splits dest: match_at_group)


lemma plain_atom_ok:
  assumes "plain_atom a" and "atom_ok a c"
  shows "c \<notin> {CHR '','', CHR 0x22, CHR 0x0D, CHR 0x0A}"
proof -
  have "\<not> is_word CHR '',''" "\<not> is_word CHR 0x22" "\<not> is_word CHR 0x0D" "\<not> is_word CHR 0x0A"
    by (simp_all add: is_word_def is_digit_def)
  moreover have "\<not> is_digit CHR '',''" "\<not> is_digit CHR 0x22" "\<not> is_digit CHR 0x0D"
    "\<not> is_digit CHR 0x0A"
    by (simp_all add: is_digit_def)
  ultimately show ?thesis
    using assms by (auto simp: plain_atom_def)
qed

lemma plain_Nil: "plain []"
  by (simp add: plain_def needs_quote_def)

lemma search_plain:
  assumes "plain_atom (group1 p)" and "search p s = Some g"
  shows "plain g"
proof -
  have "\<forall>c \<in> set g. c \<notin> {CHR '','', CHR 0x22, CHR 0x0D, CHR 0x0A}"
    using search_group [OF assms(2)] plain_atom_ok [OF assms(1)] by blast
  then show ?thesis by (simp add: plain_def needs_quote_def list_ex_iff)
qed

lemma assign_if_plain:
  assumes "plain_atom (group1 p)" and "case x of None \<Rightarrow> True | Some g \<Rightarrow> plain g"
  shows "case assign_if (search p line) x of None \<Rightarrow> True | Some g \<Rightarrow> plain g"
  using assms by (auto simp: assign_if_def split: option.splits dest: search_plain)

lemma workload_group: "plain_atom (group1 workload_pattern)"
  by (simp add: workload_pattern_def plain_atom_def)

lemma assign_line_plain:
  "plain_patterns ps \<Longrightarrow> plain_pending st \<Longrightarrow> plain_pending (assign_line ps st line)"
  by (simp add: plain_patterns_def plain_pending_def assign_line_def assign_if_plain
      workload_group)

lemma update_list_all:
  "list_all Q r \<Longrightarrow> Q (k, v) \<Longrightarrow> list_all Q (AList.update k v r)"
  by (induction r) auto

lemma plain_rows_set_field:
  "plain_rows d \<Longrightarrow> k \<in> set fieldnames \<Longrightarrow> plain v \<Longrightarrow> plain_rows (set_field d w k v)"
  unfolding plain_rows_def set_field_def
  by (induction d) (auto simp: update_list_all)

lemma plain_rows_setdefault: "plain_rows d \<Longrightarrow> plain_rows (setdefault d w [])"
  by (simp add: plain_rows_def setdefault_def)

lemma plain_rows_commit:
  assumes "plain_rows d" "plain w" "plain p" "plain v" "plain l"
  shows "plain_rows (commit m d w p v l)"
proof -
  have f: "''workload'' \<in> set fieldnames" "''parquet_size'' \<in> set fieldnames"
    "''vortex_size'' \<in> set fieldnames" "''lance_size'' \<in> set fieldnames"
    "''parquet_scan_time'' \<in> set fieldnames" "''vortex_scan_time'' \<in> set fieldnames"
    "''lance_scan_time'' \<in> set fieldnames"
    by (simp_all add: fieldnames_def)
  show ?thesis
    using assms by (cases m) (simp_all only: commit_def Let_def metric.case
        plain_rows_set_field plain_rows_setdefault f)
qed

lemma step_plain:
  assumes "plain_patterns ps" "plain_rows (fst ds)" "plain_pending (snd ds)"
  shows "plain_rows (fst (step ps m ds line)) \<and> plain_pending (snd (step ps m ds line))"
proof -
  let ?st = "assign_line ps (snd ds) line"
  have st: "plain_pending ?st" using assms(1,3) by (rule assign_line_plain)
  show ?thesis
  proof (cases "complete ?st")
    case True
    then obtain w p v l where vals: "current_workload ?st = Some w"
      "current_parquet_metric ?st = Some p" "current_vortex_metric ?st = Some v"
      "current_lance_metric ?st = Some l"
      by (auto simp: complete_def truthy_def split: option.splits)
    with st have "plain w" "plain p" "plain v" "plain l"
      by (simp_all add: plain_pending_def)
    with assms(2) have "plain_rows (commit m (fst ds) w p v l)" by (rule plain_rows_commit)
    moreover have "plain_pending all_none" by (simp add: plain_pending_def all_none_def)
    ultimately show ?thesis using True vals by (simp add: step_def Let_def)
  next
    case False
    with st assms(2) show ?thesis by (simp add: step_def Let_def)
  qed
qed

lemma process_lines_plain:
  assumes "plain_patterns ps" "plain_rows d" "plain_pending st"
  shows "plain_rows (fst (process_lines ps m (d, st) ls))
    \<and> plain_pending (snd (process_lines ps m (d, st) ls))"
proof (induction ls rule: rev_induct)
  case Nil
  then show ?case using assms by (simp add: process_lines_def)
next
  case (snoc x ls)
  then show ?case using assms(1) by (simp add: process_lines_snoc step_plain)
qed

lemma process_log_plain:
  "plain_patterns ps \<Longrightarrow> plain_rows d \<Longrightarrow> plain_rows (process_log d text ps m)"
  using process_lines_plain [of ps d all_none m "split_lines (strip text)"]
  by (simp add: process_log_def plain_pending_def all_none_def)

lemma result_table_plain: "plain_rows (result_table c s)"
proof -
  have "plain_patterns size_patterns" "plain_patterns scan_patterns"
    by (simp_all add: plain_patterns_def size_patterns_def scan_patterns_def plain_atom_def)
  moreover have "plain_rows []" by (simp add: plain_rows_def)
  ultimately show ?thesis by (simp add: result_table_def process_log_plain)
qed

lemma quote_field_plain: "plain s \<Longrightarrow> quote_field s = s"
  by (simp add: plain_def quote_field_def)

lemma plain_get:
  assumes "list_all (\<lambda>(k, v). k \<in> set fieldnames \<and> plain v) r"
  shows "plain (case map_of r f of None \<Rightarrow> [] | Some v \<Rightarrow> v)"
proof (cases "map_of r f")
  case None
  then show ?thesis by (simp add: plain_Nil)
next
  case (Some v)
  then have "(f, v) \<in> set r" by (rule map_of_SomeD)
  with assms have "plain v" by (auto simp: list_all_iff)
  with Some show ?thesis by simp
qed

lemma writerow_plain:
  assumes "list_all (\<lambda>(k, v). k \<in> set fieldnames \<and> plain v) r"
  shows "writerow r = Inr (join_fields
      (map (\<lambda>f. case map_of r f of None \<Rightarrow> [] | Some v \<Rightarrow> v) fieldnames) @ [CHR 0x0D, CHR 0x0A])"
proof -
  have "\<not> list_ex (\<lambda>k. k \<notin> set fieldnames) (map fst r)"
    using assms by (auto simp: list_ex_iff list_all_iff)
  then have d: "dict_to_list r
      = Inr (map (\<lambda>f. case map_of r f of None \<Rightarrow> [] | Some v \<Rightarrow> v) fieldnames)"
    by (simp add: dict_to_list_def)
  have q: "quote_field (case map_of r f of None \<Rightarrow> [] | Some v \<Rightarrow> v)
      = (case map_of r f of None \<Rightarrow> [] | Some v \<Rightarrow> v)" for f
    using plain_get [OF assms] by (rule quote_field_plain)
  show ?thesis
    by (simp add: writerow_def d csv_line_def fieldnames_def q Let_def)
qed

lemma write_rows_plain:
  "plain_rows d \<Longrightarrow> write_rows d = Inr (concat (map (\<lambda>(w, r). join_fields
      (map (\<lambda>f. case map_of r f of None \<Rightarrow> [] | Some v \<Rightarrow> v) fieldnames) @ [CHR 0x0D, CHR 0x0A]) d))"
proof (induction d)
  case Nil
  then show ?case by simp
next
  case (Cons a d)
  obtain w r where a: "a = (w, r)" by (cases a)
  from Cons.prems a have r: "list_all (\<lambda>(k, v). k \<in> set fieldnames \<and> plain v) r"
    and d: "plain_rows d" by (simp_all add: plain_rows_def)
  from Cons.IH [OF d] writerow_plain [OF r] a show ?case by simp
qed

lemma writeheader_text:
  "writeheader = Inr (''workload,parquet_size,vortex_size,lance_size,''
     @ ''lance_scan_time,parquet_scan_time,vortex_scan_time'' @ [CHR 0x0D, CHR 0x0A])"
  by code_simp

lemma take_run_prefix:
  "prefix (map fst (fst (process_lines ps m (d, st) (take k ls))))
     (map fst (fst (process_lines ps m (d, st) ls)))"
proof -
  obtain d' st' where run: "process_lines ps m (d, st) (take k ls) = (d', st')"
    by (cases "process_lines ps m (d, st) (take k ls)")
  have "process_lines ps m (d, st) ls = process_lines ps m (d', st') (drop k ls)"
    using process_lines_append [of ps m "(d, st)" "take k ls" "drop k ls"] run by simp
  then show ?thesis using process_lines_prefix [of d' ps m st' "drop k ls"] run by simp
qed

subsection \<open>The table as the commits of the loop\<close>

lemma process_lines_Cons:
  "process_lines ps m ds (x # ls) = process_lines ps m (step ps m ds x) ls"
  by (simp add: process_lines_def)

lemma process_lines_commits:
  "fst (process_lines ps m (d, st) ls) = commit_all m d (commits ps st ls)"
proof (induction ls arbitrary: d st)
  case Nil
  then show ?case by (simp add: process_lines_def)
next
  case (Cons x ls)
  show ?case
  proof (cases "complete (assign_line ps st x)")
    case True
    then show ?thesis
      using Cons.IH by (simp add: process_lines_Cons step_def Let_def)
  next
    case False
    then show ?thesis
      using Cons.IH by (simp add: process_lines_Cons step_def Let_def)
  qed
qed

lemma commit_all_snoc:
  "commit_all m d (cs @ [(w, p, v, l)]) = commit m (commit_all m d cs) w p v l"
  by (induction cs arbitrary: d) auto

lemma cell_commit_all:
  "cell (commit_all m d cs) w f =
     (case map_of (rev cs) w of
        None \<Rightarrow> cell d w f
      | Some (p, v, l) \<Rightarrow>
          (case map_of (assigned m w p v l) f of Some x \<Rightarrow> Some x | None \<Rightarrow> cell d w f))"
proof (induction cs rule: rev_induct)
  case Nil
  then show ?case by simp
next
  case (snoc c cs)
  obtain w0 p v l where c: "c = (w0, p, v, l)" by (cases c)
  show ?case
  proof (cases "w = w0")
    case True
    show ?thesis
    proof (cases "map_of (assigned m w0 p v l) f")
      case None
      then have nf: "f \<notin> set (metric_fields m)" by (simp add: assigned_None)
      then have "map_of (assigned m w0 p' v' l') f = None" for p' v' l'
        by (simp add: assigned_None)
      with None True snoc c show ?thesis
        by (simp add: commit_all_snoc cell_commit split: option.splits)
    next
      case (Some a)
      with True c show ?thesis by (simp add: commit_all_snoc cell_commit)
    qed
  next
    case False
    with snoc c show ?thesis by (simp add: commit_all_snoc cell_commit)
  qed
qed

lemma keys_commit_all: "fst ` set (commit_all m d cs) = fst ` set d \<union> fst ` set cs"
proof (induction cs arbitrary: d)
  case Nil
  then show ?case by simp
next
  case (Cons c cs)
  obtain w p v l where c: "c = (w, p, v, l)" by (cases c)
  with Cons show ?case by (simp add: commit_key_set)
qed

lemma rows_by_key:
  assumes "distinct (map fst d)"
  shows "map (\<lambda>(w, r). G (map_of r)) d = map (\<lambda>w. G (cell d w)) (map fst d)"
proof -
  have "G (map_of r) = G (cell d w)" if "(w, r) \<in> set d" for w r
  proof -
    have "map_of d w = Some r" using assms that by (rule map_of_is_SomeI)
    then have "cell d w = map_of r" by (simp add: cell_def fun_eq_iff)
    then show ?thesis by simp
  qed
  then show ?thesis by (auto simp: map_eq_conv)
qed

lemma later_cluster:
  assumes run: "process_lines ps m (data, all_none) pre = (d, st0)"
    and comp: "complete (assign_line ps st0 x)"
    and w: "current_workload (assign_line ps st0 x) = Some w"
    and key: "w \<in> set (map fst d)"
  shows "map fst (fst (process_lines ps m (data, all_none) (pre @ [x]))) = map fst d
    \<and> (case m of
          SIZE \<Rightarrow> [cell (fst (process_lines ps m (data, all_none) (pre @ [x]))) w ''parquet_size'',
            cell (fst (process_lines ps m (data, all_none) (pre @ [x]))) w ''vortex_size'',
            cell (fst (process_lines ps m (data, all_none) (pre @ [x]))) w ''lance_size'']
        | SCAN_TIME \<Rightarrow>
           [cell (fst (process_lines ps m (data, all_none) (pre @ [x]))) w ''parquet_scan_time'',
            cell (fst (process_lines ps m (data, all_none) (pre @ [x]))) w ''vortex_scan_time'',
            cell (fst (process_lines ps m (data, all_none) (pre @ [x]))) w ''lance_scan_time''])
      = [current_parquet_metric (assign_line ps st0 x),
         current_vortex_metric (assign_line ps st0 x),
         current_lance_metric (assign_line ps st0 x)]"
proof -
  let ?st = "assign_line ps st0 x"
  from comp obtain p v l where vals: "current_parquet_metric ?st = Some p"
    "current_vortex_metric ?st = Some v" "current_lance_metric ?st = Some l"
    by (auto simp: complete_def truthy_def split: option.splits)
  have after: "fst (process_lines ps m (data, all_none) (pre @ [x])) = commit m d w p v l"
    using comp w vals by (simp add: process_lines_snoc run step_def Let_def)
  have keys: "map fst (commit m d w p v l) = map fst d"
    using key by (simp only: commit_keys if_True)
  have cells: "(case m of
          SIZE \<Rightarrow> [cell (commit m d w p v l) w ''parquet_size'',
            cell (commit m d w p v l) w ''vortex_size'',
            cell (commit m d w p v l) w ''lance_size'']
        | SCAN_TIME \<Rightarrow> [cell (commit m d w p v l) w ''parquet_scan_time'',
            cell (commit m d w p v l) w ''vortex_scan_time'',
            cell (commit m d w p v l) w ''lance_scan_time''])
      = [Some p, Some v, Some l]"
    by (cases m) (simp_all add: cell_commit assigned_def)
  show ?thesis by (simp only: after keys cells vals)
qed

subsection \<open>Reading back what the writer wrote\<close>

lemma parse_quoted_escaped:
  assumes "rest = [] \<or> hd rest \<noteq> CHR 0x22"
  shows "parse_quoted (concat (map (\<lambda>c. if c = CHR 0x22 then [c, c] else [c]) s)
      @ CHR 0x22 # rest) = Some (s, rest)"
proof (induction s)
  case Nil
  from assms show ?case by (cases rest) auto
next
  case (Cons c s)
  let ?t = "concat (map (\<lambda>c. if c = CHR 0x22 then [c, c] else [c]) s) @ CHR 0x22 # rest"
  obtain d ds where t: "?t = d # ds" by (cases ?t) auto
  show ?case
  proof (cases "c = CHR 0x22")
    case True
    with Cons show ?thesis by simp
  next
    case False
    have "parse_quoted (c # ?t) = Some (c # s, rest)"
      using False Cons unfolding t by simp
    with False show ?thesis by simp
  qed
qed

lemma parse_field_quote_field:
  assumes "rest \<noteq> []" and "ends_field (hd rest)"
  shows "parse_field (quote_field v @ rest) = Some (v, rest)"
proof (cases "needs_quote v")
  case True
  have "hd rest \<noteq> CHR 0x22" using assms(2) by (auto simp: ends_field_def)
  then have "parse_quoted (concat (map (\<lambda>c. if c = CHR 0x22 then [c, c] else [c]) v)
      @ CHR 0x22 # rest) = Some (v, rest)"
    by (intro parse_quoted_escaped) simp
  with True show ?thesis by (simp add: quote_field_def parse_field_def)
next
  case False
  then have plain: "\<forall>c \<in> set v. \<not> ends_field c \<and> c \<noteq> CHR 0x22"
    by (auto simp: needs_quote_def list_ex_iff ends_field_def)
  obtain e rest' where rest: "rest = e # rest'" using assms(1) by (cases rest) auto
  with assms(2) have e: "ends_field e" by simp
  have tw: "takeWhile (\<lambda>c. \<not> ends_field c) (v @ rest) = v"
    using plain e rest by (simp add: takeWhile_append2)
  have dw: "dropWhile (\<lambda>c. \<not> ends_field c) (v @ rest) = rest"
    using plain e rest by (simp add: dropWhile_append2)
  have "v @ rest \<noteq> []" using assms(1) by simp
  then obtain c cs where vc: "v @ rest = c # cs" by (cases "v @ rest") auto
  have "c \<noteq> CHR 0x22"
  proof (cases v)
    case Nil
    with vc rest e show ?thesis by (auto simp: ends_field_def)
  next
    case (Cons a v')
    with vc plain show ?thesis by auto
  qed
  then have "parse_field (v @ rest) = Some (takeWhile (\<lambda>c. \<not> ends_field c) (v @ rest),
      dropWhile (\<lambda>c. \<not> ends_field c) (v @ rest))"
    by (simp add: parse_field_def vc)
  with False tw dw show ?thesis by (simp add: quote_field_def)
qed

lemma parse_record_line:
  "cells \<noteq> [] \<Longrightarrow>
   parse_record (join_fields (map quote_field cells) @ CHR 0x0D # CHR 0x0A # tail_text)
     = Some (cells, tail_text)"
proof (induction cells rule: join_fields.induct)
  case 1
  then show ?case by simp
next
  case (2 x)
  have "parse_field (quote_field x @ CHR 0x0D # CHR 0x0A # tail_text)
      = Some (x, CHR 0x0D # CHR 0x0A # tail_text)"
    by (rule parse_field_quote_field) (simp_all add: ends_field_def)
  then show ?case by (subst parse_record.simps) simp
next
  case (3 x y ys)
  let ?rest = "join_fields (map quote_field (y # ys)) @ CHR 0x0D # CHR 0x0A # tail_text"
  have "parse_field (quote_field x @ CHR '','' # ?rest) = Some (x, CHR '','' # ?rest)"
    by (rule parse_field_quote_field) (simp_all add: ends_field_def)
  moreover have "parse_record ?rest = Some (y # ys, tail_text)" using "3.IH" by simp
  ultimately show ?case by (subst parse_record.simps) simp
qed

lemma csv_line_long:
  assumes "2 \<le> length cells"
  shows "csv_line cells = join_fields (map quote_field cells) @ [CHR 0x0D, CHR 0x0A]"
proof -
  from assms obtain x y ys where "cells = x # y # ys"
    by (cases cells; cases "tl cells") auto
  then show ?thesis by (simp add: csv_line_def Let_def)
qed

lemma parse_records_lines:
  assumes "\<forall>cells \<in> set lines. 2 \<le> length cells"
  shows "parse_records (concat (map csv_line lines)) = Some lines"
  using assms
proof (induction lines)
  case Nil
  then show ?case by (subst parse_records.simps) simp
next
  case (Cons cells lines)
  let ?tail = "concat (map csv_line lines)"
  have len: "2 \<le> length cells" using Cons.prems by simp
  then have ne: "cells \<noteq> []" by auto
  have line_eq: "concat (map csv_line (cells # lines))
      = join_fields (map quote_field cells) @ CHR 0x0D # CHR 0x0A # ?tail"
    using csv_line_long [OF len] by simp
  have "parse_record (join_fields (map quote_field cells) @ CHR 0x0D # CHR 0x0A # ?tail)
      = Some (cells, ?tail)"
    using ne by (rule parse_record_line)
  moreover have "parse_records ?tail = Some lines" using Cons by simp
  ultimately show ?case
    unfolding line_eq by (subst parse_records.simps) simp
qed

lemma dict_to_list_fields:
  assumes "set (map fst r) \<subseteq> set fieldnames"
  shows "dict_to_list r = Inr (map (field_text r) fieldnames)"
proof -
  have "\<not> list_ex (\<lambda>k. k \<notin> set fieldnames) (map fst r)"
    using assms by (auto simp: list_ex_iff)
  then show ?thesis by (simp add: dict_to_list_def field_text_def)
qed

lemma writeheader_line: "writeheader = Inr (csv_line fieldnames)"
proof -
  have "dict_to_list (zip fieldnames fieldnames) = Inr fieldnames"
    by (simp add: dict_to_list_def fieldnames_def)
  then show ?thesis by (simp add: writeheader_def writerow_def)
qed

lemma write_rows_lines:
  assumes "\<forall>(w, r) \<in> set rows. set (map fst r) \<subseteq> set fieldnames"
  shows "write_rows rows
    = Inr (concat (map csv_line (map (\<lambda>(w, r). map (field_text r) fieldnames) rows)))"
  using assms
proof (induction rows)
  case Nil
  then show ?case by simp
next
  case (Cons a rows)
  obtain w r where a: "a = (w, r)" by (cases a)
  with Cons.prems have "set (map fst r) \<subseteq> set fieldnames" by simp
  then have "writerow r = Inr (csv_line (map (field_text r) fieldnames))"
    by (simp add: writerow_def dict_to_list_fields)
  moreover have "write_rows rows
    = Inr (concat (map csv_line (map (\<lambda>(w, r). map (field_text r) fieldnames) rows)))"
    using Cons by simp
  ultimately show ?case using a by simp
qed

lemma write_csv_lines:
  assumes "\<forall>(w, r) \<in> set rows. set (map fst r) \<subseteq> set fieldnames"
  shows "write_csv rows
    = Inr (concat (map csv_line
        (fieldnames # map (\<lambda>(w, r). map (field_text r) fieldnames) rows)))"
  by (simp add: write_csv_def writeheader_line write_rows_lines [OF assms])

lemma read_csv_lines:
  assumes "2 \<le> length header" and "\<forall>cells \<in> set records. 2 \<le> length cells"
  shows "read_csv (concat (map csv_line (header # records)))
    = Some (map (\<lambda>cells. filter (\<lambda>(k, v). v \<noteq> []) (zip header cells)) records)"
proof -
  have "parse_records (concat (map csv_line (header # records))) = Some (header # records)"
    by (rule parse_records_lines) (use assms in auto)
  then show ?thesis by (simp add: read_csv_def)
qed

lemma field_text_reread:
  "field_text (filter (\<lambda>(k, v). v \<noteq> []) (zip ks (map g ks))) f
     = (if f \<in> set ks then g f else [])"
proof -
  have "map_of (filter (\<lambda>(k, v). v \<noteq> []) (zip ks (map g ks))) f
      = (if f \<in> set ks \<and> g f \<noteq> [] then Some (g f) else None)"
    by (induction ks) auto
  then show ?thesis by (simp add: field_text_def)
qed

lemma field_text_absent: "f \<notin> set (map fst r) \<Longrightarrow> field_text r f = []"
  by (simp add: field_text_def map_of_eq_None_iff [THEN iffD2])

section \<open>The claims\<close>






text \<open>
  C4. After every line the four variables are not all set: from the state where they are
  all \<open>None\<close>, whatever the lines; and when the assignments of a line set all four, that
  same step commits the row of the current workload and resets the four to \<open>None\<close>.
\<close>

theorem never_all_set:
  "\<not> all_set (snd (process_lines ps m (data, all_none) lines))
   \<and> (all_set (assign_line ps (snd (process_lines ps m (data, all_none) lines)) line) \<longrightarrow>
        process_lines ps m (data, all_none) (lines @ [line]) =
          (let st = assign_line ps (snd (process_lines ps m (data, all_none) lines)) line
           in (commit m (fst (process_lines ps m (data, all_none) lines))
                 (the (current_workload st)) (the (current_parquet_metric st))
                 (the (current_vortex_metric st)) (the (current_lance_metric st)),
               all_none)))"
proof -
  let ?ds = "process_lines ps m (data, all_none) lines"
  let ?st = "assign_line ps (snd ?ds) line"
  have "no_empty_text (snd ?ds)" and first: "\<not> all_set (snd ?ds)"
    using run_keeps by blast+
  then have "no_empty_text ?st" by (simp add: assign_line_no_empty)
  then have "complete ?st \<longleftrightarrow> all_set ?st" by (rule complete_iff_all_set)
  then have "all_set ?st \<longrightarrow> step ps m ?ds line =
      (commit m (fst ?ds) (the (current_workload ?st)) (the (current_parquet_metric ?st))
         (the (current_vortex_metric ?st)) (the (current_lance_metric ?st)), all_none)"
    by (simp add: step_def Let_def)
  with first show ?thesis by (simp add: process_lines_snoc Let_def)
qed

theorem never_all_set_witness:
  "all_set (assign_line size_patterns
       (snd (process_lines size_patterns SIZE ([], all_none)
          [''Running /data/parquet/core.parquet'', ''Parquet size: 12.5 MB, 13107200B'',
           ''Vortex size: 1.5 MB, 1572864B'']))
       ''Lance directory aggregate size: 2.25 MB, 2359296B'')
   \<and> process_lines size_patterns SIZE ([], all_none)
       ([''Running /data/parquet/core.parquet'', ''Parquet size: 12.5 MB, 13107200B'',
         ''Vortex size: 1.5 MB, 1572864B'']
        @ [''Lance directory aggregate size: 2.25 MB, 2359296B''])
     = ([(''core'', [(''workload'', ''core''), (''parquet_size'', ''12.5''),
         (''vortex_size'', ''1.5''), (''lance_size'', ''2.25'')])], all_none)"
proof -
  have run: "process_lines size_patterns SIZE ([], all_none)
      [''Running /data/parquet/core.parquet'', ''Parquet size: 12.5 MB, 13107200B'',
       ''Vortex size: 1.5 MB, 1572864B'']
     = ([], \<lparr>current_workload = Some ''core'', current_parquet_metric = Some ''12.5'',
          current_vortex_metric = Some ''1.5'', current_lance_metric = None\<rparr>)"
    by code_simp
  have asg: "assign_line size_patterns
      \<lparr>current_workload = Some ''core'', current_parquet_metric = Some ''12.5'',
        current_vortex_metric = Some ''1.5'', current_lance_metric = None\<rparr>
      ''Lance directory aggregate size: 2.25 MB, 2359296B''
     = \<lparr>current_workload = Some ''core'', current_parquet_metric = Some ''12.5'',
        current_vortex_metric = Some ''1.5'', current_lance_metric = Some ''2.25''\<rparr>"
    by code_simp
  have c: "commit SIZE [] ''core'' ''12.5'' ''1.5'' ''2.25''
      = [(''core'', [(''workload'', ''core''), (''parquet_size'', ''12.5''),
        (''vortex_size'', ''1.5''), (''lance_size'', ''2.25'')])]"
    by code_simp
  have a: "all_set (assign_line size_patterns
       (snd (process_lines size_patterns SIZE ([], all_none)
          [''Running /data/parquet/core.parquet'', ''Parquet size: 12.5 MB, 13107200B'',
           ''Vortex size: 1.5 MB, 1572864B'']))
       ''Lance directory aggregate size: 2.25 MB, 2359296B'')"
    by (simp only: run asg snd_conv) (simp add: all_set_def)
  from never_all_set [of size_patterns SIZE "[]"
      "[''Running /data/parquet/core.parquet'', ''Parquet size: 12.5 MB, 13107200B'',
        ''Vortex size: 1.5 MB, 1572864B'']"
      "''Lance directory aggregate size: 2.25 MB, 2359296B''"] a
  have "process_lines size_patterns SIZE ([], all_none)
       ([''Running /data/parquet/core.parquet'', ''Parquet size: 12.5 MB, 13107200B'',
         ''Vortex size: 1.5 MB, 1572864B'']
        @ [''Lance directory aggregate size: 2.25 MB, 2359296B''])
     = (let st = assign_line size_patterns
       (snd (process_lines size_patterns SIZE ([], all_none)
          [''Running /data/parquet/core.parquet'', ''Parquet size: 12.5 MB, 13107200B'',
           ''Vortex size: 1.5 MB, 1572864B'']))
       ''Lance directory aggregate size: 2.25 MB, 2359296B''
           in (commit SIZE (fst (process_lines size_patterns SIZE ([], all_none)
          [''Running /data/parquet/core.parquet'', ''Parquet size: 12.5 MB, 13107200B'',
           ''Vortex size: 1.5 MB, 1572864B'']))
                 (the (current_workload st)) (the (current_parquet_metric st))
                 (the (current_vortex_metric st)) (the (current_lance_metric st)),
               all_none))"
    by blast
  then have "process_lines size_patterns SIZE ([], all_none)
       ([''Running /data/parquet/core.parquet'', ''Parquet size: 12.5 MB, 13107200B'',
         ''Vortex size: 1.5 MB, 1572864B'']
        @ [''Lance directory aggregate size: 2.25 MB, 2359296B''])
     = ([(''core'', [(''workload'', ''core''), (''parquet_size'', ''12.5''),
         (''vortex_size'', ''1.5''), (''lance_size'', ''2.25'')])], all_none)"
    by (simp only: run asg snd_conv fst_conv Let_def pending.simps option.sel c)
  with a show ?thesis by blast
qed

text \<open>
  C7. The parquet pattern of the size pass finds the text \<open>12.5\<close> in the line
  \<open>Parquet size: 12.5 MB, 13107200B\<close>; with \<open>core\<close> as the current workload the step
  stores that text, unparsed, as the pending parquet value, and when the line completes
  the cluster the text is the \<open>parquet_size\<close> of the row of \<open>core\<close>.
\<close>

theorem parquet_size_line:
  "search (parquet_pattern size_patterns) ''Parquet size: 12.5 MB, 13107200B'' = Some ''12.5''
   \<and> step size_patterns SIZE
        ([], \<lparr>current_workload = Some ''core'', current_parquet_metric = None,
              current_vortex_metric = None, current_lance_metric = None\<rparr>)
        ''Parquet size: 12.5 MB, 13107200B''
      = ([], \<lparr>current_workload = Some ''core'', current_parquet_metric = Some ''12.5'',
              current_vortex_metric = None, current_lance_metric = None\<rparr>)
   \<and> step size_patterns SIZE
        ([], \<lparr>current_workload = Some ''core'', current_parquet_metric = None,
              current_vortex_metric = Some ''1.5'', current_lance_metric = Some ''2.25''\<rparr>)
        ''Parquet size: 12.5 MB, 13107200B''
      = ([(''core'', [(''workload'', ''core''), (''parquet_size'', ''12.5''),
           (''vortex_size'', ''1.5''), (''lance_size'', ''2.25'')])], all_none)"
  by code_simp

text \<open>
  C8. On an empty log \<open>process_log\<close> commits no row, whatever the patterns and the
  metric; with both logs empty the table is empty and the CSV text is the header line alone.
\<close>

theorem empty_log:
  "process_log data [] ps m = data
   \<and> result_table [] [] = []
   \<and> get_result_csv [] [] = Inr (''workload,parquet_size,vortex_size,lance_size,''
        @ ''lance_scan_time,parquet_scan_time,vortex_scan_time'' @ [CHR 0x0D, CHR 0x0A])"
proof -
  have run: "process_log data [] ps m = data" for data ps m
    by (simp add: process_log_def strip_def process_lines_def step_def assign_line_def
      search_empty [simplified] assign_if_def all_none_def complete_def truthy_def)
  have "write_csv [] = Inr (''workload,parquet_size,vortex_size,lance_size,''
        @ ''lance_scan_time,parquet_scan_time,vortex_scan_time'' @ [CHR 0x0D, CHR 0x0A])"
    by code_simp
  then show ?thesis by (simp add: get_result_csv_def result_table_def run)
qed



text \<open>
  C3. The two passes write into one table. With \<open>A\<close> the table of the size pass alone,
  \<open>B\<close> the table of the scan-time pass alone and \<open>D\<close> the table of the script: \<open>D\<close>
  has one row for each workload of \<open>A\<close> or \<open>B\<close>; a workload only in \<open>A\<close> has its
  row of \<open>A\<close>, the workload and the three size fields, and no scan-time field; a workload
  only in \<open>B\<close> has its row of \<open>B\<close>, the workload and the three scan-time fields, and no
  size field; a workload in both has all seven fields, the scan-time fields of \<open>B\<close> and
  the size fields of \<open>A\<close>. A field that is absent has no value at all.
\<close>

theorem two_pass_merge:
  "let A = process_log [] compress_log size_patterns SIZE;
       B = process_log [] scan_log scan_patterns SCAN_TIME;
       D = result_table compress_log scan_log
   in distinct (map fst D) \<and> set (map fst D) = set (map fst A) \<union> set (map fst B)
    \<and> (w \<in> set (map fst A) \<and> w \<notin> set (map fst B) \<longrightarrow>
         cell D w = cell A w
         \<and> dom (cell D w) = {''workload'', ''parquet_size'', ''vortex_size'', ''lance_size''})
    \<and> (w \<notin> set (map fst A) \<and> w \<in> set (map fst B) \<longrightarrow>
         cell D w = cell B w
         \<and> dom (cell D w) = {''workload'', ''parquet_scan_time'', ''vortex_scan_time'',
              ''lance_scan_time''})
    \<and> (w \<in> set (map fst A) \<and> w \<in> set (map fst B) \<longrightarrow>
         dom (cell D w) = set fieldnames
         \<and> (\<forall>f. cell D w f = (case cell B w f of Some x \<Rightarrow> Some x | None \<Rightarrow> cell A w f)))"
proof -
  define A where "A = process_log [] compress_log size_patterns SIZE"
  define B where "B = process_log [] scan_log scan_patterns SCAN_TIME"
  define D where "D = result_table compress_log scan_log"
  have D: "D = process_log A scan_log scan_patterns SCAN_TIME"
    by (simp add: D_def A_def result_table_def)
  have keys: "fst ` set D = fst ` set A \<union> fst ` set B"
    and cells: "\<And>w f. cell D w f
      = (if w \<in> fst ` set B \<and> f \<in> set (metric_fields SCAN_TIME) then cell B w f else cell A w f)"
    using process_log_merge [of A scan_log scan_patterns SCAN_TIME] by (simp_all add: D B_def)
  have inA: "\<And>w f. cell A w f \<noteq> None \<longleftrightarrow> w \<in> fst ` set A \<and> f \<in> set (metric_fields SIZE)"
    unfolding A_def by (rule one_metric_table)
  have inB: "\<And>w f. cell B w f \<noteq> None \<longleftrightarrow> w \<in> fst ` set B \<and> f \<in> set (metric_fields SCAN_TIME)"
    unfolding B_def by (rule one_metric_table)
  have "distinct (map fst A)" unfolding A_def by (rule process_log_distinct) simp
  then have dist: "distinct (map fst D)" unfolding D by (rule process_log_distinct)
  have only_A: "cell D w = cell A w
      \<and> dom (cell D w) = {''workload'', ''parquet_size'', ''vortex_size'', ''lance_size''}"
    if "w \<in> fst ` set A" "w \<notin> fst ` set B"
  proof -
    have eq: "cell D w = cell A w" using that cells by (simp add: fun_eq_iff)
    have "dom (cell A w) = set (metric_fields SIZE)"
      using inA [of w] that(1) by (auto simp: dom_def)
    with eq show ?thesis by (simp add: metric_fields_def)
  qed
  have only_B: "cell D w = cell B w
      \<and> dom (cell D w) = {''workload'', ''parquet_scan_time'', ''vortex_scan_time'',
           ''lance_scan_time''}"
    if "w \<notin> fst ` set A" "w \<in> fst ` set B"
  proof -
    have "cell D w f = cell B w f" for f
    proof (cases "f \<in> set (metric_fields SCAN_TIME)")
      case True
      with that cells show ?thesis by simp
    next
      case False
      then have "cell B w f = None" using inB [of w f] by blast
      moreover have "cell A w f = None" using inA [of w f] that(1) by blast
      ultimately show ?thesis using cells False by simp
    qed
    then have eq: "cell D w = cell B w" by (simp add: fun_eq_iff)
    have "dom (cell B w) = set (metric_fields SCAN_TIME)"
      using inB [of w] that(2) by (auto simp: dom_def)
    with eq show ?thesis by (simp add: metric_fields_def)
  qed
  have both: "dom (cell D w) = set fieldnames
      \<and> (\<forall>f. cell D w f = (case cell B w f of Some x \<Rightarrow> Some x | None \<Rightarrow> cell A w f))"
    if wA: "w \<in> fst ` set A" and wB: "w \<in> fst ` set B"
  proof -
    have c: "cell D w f = (case cell B w f of Some x \<Rightarrow> Some x | None \<Rightarrow> cell A w f)" for f
    proof (cases "f \<in> set (metric_fields SCAN_TIME)")
      case True
      then obtain x where "cell B w f = Some x" using inB [of w f] wB by auto
      with True wA wB cells show ?thesis by simp
    next
      case False
      then have "cell B w f = None" using inB [of w f] by blast
      with False cells show ?thesis by simp
    qed
    have "cell D w f \<noteq> None
        \<longleftrightarrow> f \<in> set (metric_fields SIZE) \<or> f \<in> set (metric_fields SCAN_TIME)" for f
      using inA [of w f] inB [of w f] wA wB cells [of w f] by auto
    then have "dom (cell D w) = set (metric_fields SIZE) \<union> set (metric_fields SCAN_TIME)"
      by (auto simp: dom_def)
    also have "\<dots> = set fieldnames" by (auto simp: metric_fields_def fieldnames_def)
    finally show ?thesis using c by blast
  qed
  have keys': "set (map fst D) = set (map fst A) \<union> set (map fst B)"
    using keys by simp
  have i1: "w \<in> set (map fst A) \<and> w \<notin> set (map fst B) \<longrightarrow>
         cell D w = cell A w
         \<and> dom (cell D w) = {''workload'', ''parquet_size'', ''vortex_size'', ''lance_size''}"
  proof (intro impI, elim conjE)
    assume "w \<in> set (map fst A)" "w \<notin> set (map fst B)"
    then have "w \<in> fst ` set A" "w \<notin> fst ` set B" by simp_all
    then show "cell D w = cell A w
         \<and> dom (cell D w) = {''workload'', ''parquet_size'', ''vortex_size'', ''lance_size''}"
      by (rule only_A)
  qed
  have i2: "w \<notin> set (map fst A) \<and> w \<in> set (map fst B) \<longrightarrow>
         cell D w = cell B w
         \<and> dom (cell D w) = {''workload'', ''parquet_scan_time'', ''vortex_scan_time'',
              ''lance_scan_time''}"
  proof (intro impI, elim conjE)
    assume "w \<notin> set (map fst A)" "w \<in> set (map fst B)"
    then have "w \<notin> fst ` set A" "w \<in> fst ` set B" by simp_all
    then show "cell D w = cell B w
         \<and> dom (cell D w) = {''workload'', ''parquet_scan_time'', ''vortex_scan_time'',
              ''lance_scan_time''}"
      by (rule only_B)
  qed
  have i3: "w \<in> set (map fst A) \<and> w \<in> set (map fst B) \<longrightarrow>
         dom (cell D w) = set fieldnames
         \<and> (\<forall>f. cell D w f = (case cell B w f of Some x \<Rightarrow> Some x | None \<Rightarrow> cell A w f))"
  proof (intro impI, elim conjE)
    assume "w \<in> set (map fst A)" "w \<in> set (map fst B)"
    then have "w \<in> fst ` set A" "w \<in> fst ` set B" by simp_all
    then show "dom (cell D w) = set fieldnames
         \<and> (\<forall>f. cell D w f = (case cell B w f of Some x \<Rightarrow> Some x | None \<Rightarrow> cell A w f))"
      by (rule both)
  qed
  show ?thesis
    unfolding Let_def A_def [symmetric] B_def [symmetric] D_def [symmetric]
    by (rule conjI [OF dist conjI [OF keys' conjI [OF i1 conjI [OF i2 i3]]]])
qed

theorem two_pass_merge_witness:
  "let c = ''/parquet/core.parquet\<newline>Parquet size: 12.5 MB, 13107200B\<newline>Vortex size: 1.5 MB, 1572864B\<newline>Lance directory aggregate size: 2.25 MB, 2359296B\<newline>/parquet/both.parquet\<newline>Parquet size: 7.0 MB, 7340032B\<newline>Vortex size: 8.0 MB, 8388608B\<newline>Lance directory aggregate size: 9.0 MB, 9437184B\<newline>'';
       s = ''/parquet/lineitem.parquet\<newline>Reading parquet file took 3.5ms\<newline>Reading vortex file took 2.5ms\<newline>Reading lance file took 4.5ms\<newline>/parquet/both.parquet\<newline>Reading parquet file took 0.7ms\<newline>Reading vortex file took 0.8ms\<newline>Reading lance file took 0.9ms\<newline>'';
       D = result_table c s
   in map fst D = [''core'', ''both'', ''lineitem'']
    \<and> dom (cell D ''core'') = {''workload'', ''parquet_size'', ''vortex_size'', ''lance_size''}
    \<and> dom (cell D ''lineitem'')
        = {''workload'', ''parquet_scan_time'', ''vortex_scan_time'', ''lance_scan_time''}
    \<and> dom (cell D ''both'') = set fieldnames"
proof -
  let ?c = "''/parquet/core.parquet\<newline>Parquet size: 12.5 MB, 13107200B\<newline>Vortex size: 1.5 MB, 1572864B\<newline>Lance directory aggregate size: 2.25 MB, 2359296B\<newline>/parquet/both.parquet\<newline>Parquet size: 7.0 MB, 7340032B\<newline>Vortex size: 8.0 MB, 8388608B\<newline>Lance directory aggregate size: 9.0 MB, 9437184B\<newline>''"
  let ?s = "''/parquet/lineitem.parquet\<newline>Reading parquet file took 3.5ms\<newline>Reading vortex file took 2.5ms\<newline>Reading lance file took 4.5ms\<newline>/parquet/both.parquet\<newline>Reading parquet file took 0.7ms\<newline>Reading vortex file took 0.8ms\<newline>Reading lance file took 0.9ms\<newline>''"
  have A: "map fst (process_log [] ?c size_patterns SIZE) = [''core'', ''both'']"
    by code_simp
  have B: "map fst (process_log [] ?s scan_patterns SCAN_TIME) = [''lineitem'', ''both'']"
    by code_simp
  have D: "map fst (result_table ?c ?s) = [''core'', ''both'', ''lineitem'']"
    by code_simp
  have m1: "''core'' \<in> set (map fst (process_log [] ?c size_patterns SIZE))
      \<and> ''core'' \<notin> set (map fst (process_log [] ?s scan_patterns SCAN_TIME))"
    by (simp only: A B) simp
  have m2: "''lineitem'' \<notin> set (map fst (process_log [] ?c size_patterns SIZE))
      \<and> ''lineitem'' \<in> set (map fst (process_log [] ?s scan_patterns SCAN_TIME))"
    by (simp only: A B) simp
  have m3: "''both'' \<in> set (map fst (process_log [] ?c size_patterns SIZE))
      \<and> ''both'' \<in> set (map fst (process_log [] ?s scan_patterns SCAN_TIME))"
    by (simp only: A B) simp
  note t1 = two_pass_merge [of ?c ?s "''core''", unfolded Let_def]
  note t2 = two_pass_merge [of ?c ?s "''lineitem''", unfolded Let_def]
  note t3 = two_pass_merge [of ?c ?s "''both''", unfolded Let_def]
  have 1: "dom (cell (result_table ?c ?s) ''core'')
      = {''workload'', ''parquet_size'', ''vortex_size'', ''lance_size''}"
    by (rule t1 [THEN conjunct2, THEN conjunct2, THEN conjunct1, THEN mp, OF m1,
          THEN conjunct2])
  have 2: "dom (cell (result_table ?c ?s) ''lineitem'')
      = {''workload'', ''parquet_scan_time'', ''vortex_scan_time'', ''lance_scan_time''}"
    by (rule t2 [THEN conjunct2, THEN conjunct2, THEN conjunct2, THEN conjunct1, THEN mp,
          OF m2, THEN conjunct2])
  have 3: "dom (cell (result_table ?c ?s) ''both'') = set fieldnames"
    by (rule t3 [THEN conjunct2, THEN conjunct2, THEN conjunct2, THEN conjunct2, THEN mp,
          OF m3, THEN conjunct1])
  show ?thesis
    unfolding Let_def by (rule conjI [OF D conjI [OF 1 conjI [OF 2 3]]])
qed

text \<open>
  C5. The script never fails in the writer, and the text of the CSV file is the header
  line \<open>workload,parquet_size,vortex_size,lance_size,lance_scan_time,parquet_scan_time,\<close>
  \<open>vortex_scan_time\<close>, then one line for each row of the table in the order of the table:
  the seven fields in the order of the header, unquoted, separated by commas, with the
  empty text for a field that the row does not have. The table has one row for a workload,
  and the rows are in the order of their first commit: the workloads of the table after
  any number of lines of a pass are the first workloads of the table after the pass.
\<close>

theorem csv_export:
  "get_result_csv compress_log scan_log
     = Inr (''workload,parquet_size,vortex_size,lance_size,''
         @ ''lance_scan_time,parquet_scan_time,vortex_scan_time'' @ [CHR 0x0D, CHR 0x0A]
         @ concat (map (\<lambda>(w, r). join_fields
               (map (\<lambda>f. case map_of r f of None \<Rightarrow> [] | Some v \<Rightarrow> v) fieldnames)
               @ [CHR 0x0D, CHR 0x0A])
             (result_table compress_log scan_log)))
   \<and> distinct (map fst (result_table compress_log scan_log))
   \<and> (\<forall>k. prefix
         (map fst (fst (process_lines size_patterns SIZE ([], all_none)
            (take k (split_lines (strip compress_log))))))
         (map fst (process_log [] compress_log size_patterns SIZE)))
   \<and> (\<forall>k. prefix
         (map fst (fst (process_lines scan_patterns SCAN_TIME
            (process_log [] compress_log size_patterns SIZE, all_none)
            (take k (split_lines (strip scan_log))))))
         (map fst (result_table compress_log scan_log)))"
proof (intro conjI allI)
  show "get_result_csv compress_log scan_log
     = Inr (''workload,parquet_size,vortex_size,lance_size,''
         @ ''lance_scan_time,parquet_scan_time,vortex_scan_time'' @ [CHR 0x0D, CHR 0x0A]
         @ concat (map (\<lambda>(w, r). join_fields
               (map (\<lambda>f. case map_of r f of None \<Rightarrow> [] | Some v \<Rightarrow> v) fieldnames)
               @ [CHR 0x0D, CHR 0x0A])
             (result_table compress_log scan_log)))"
    using write_rows_plain [OF result_table_plain, of compress_log scan_log]
    by (simp only: get_result_csv_def write_csv_def writeheader_text sum.case append_assoc)
next
  have "distinct (map fst (process_log [] compress_log size_patterns SIZE))"
    by (rule process_log_distinct) simp
  then show "distinct (map fst (result_table compress_log scan_log))"
    unfolding result_table_def by (rule process_log_distinct)
next
  fix k
  show "prefix
         (map fst (fst (process_lines size_patterns SIZE ([], all_none)
            (take k (split_lines (strip compress_log))))))
         (map fst (process_log [] compress_log size_patterns SIZE))"
    unfolding process_log_def by (rule take_run_prefix)
next
  fix k
  show "prefix
         (map fst (fst (process_lines scan_patterns SCAN_TIME
            (process_log [] compress_log size_patterns SIZE, all_none)
            (take k (split_lines (strip scan_log))))))
         (map fst (result_table compress_log scan_log))"
    unfolding result_table_def process_log_def by (rule take_run_prefix)
qed

text \<open>
  C6. Writing rows and reading the text back: for every table whose rows have only field
  names of the header as keys (the workload and any of the six metric fields, with any
  text as values), the writer succeeds, the parser reads the text it wrote, and gives as
  many rows in the same order; every field of a row read back has the text of the field in
  the row written, where an absent field and a field with the empty text both count as the
  empty text.
\<close>

theorem csv_round_trip:
  assumes "\<forall>(w, r) \<in> set rows. set (map fst r) \<subseteq> set fieldnames"
  shows "\<exists>text parsed. write_csv rows = Inr text \<and> read_csv text = Some parsed
    \<and> length parsed = length rows
    \<and> (\<forall>i<length rows. \<forall>f. field_text (parsed ! i) f = field_text (snd (rows ! i)) f)"
proof -
  let ?records = "map (\<lambda>(w, r). map (field_text r) fieldnames) rows"
  let ?text = "concat (map csv_line (fieldnames # ?records))"
  let ?parsed = "map (\<lambda>cells. filter (\<lambda>(k, v). v \<noteq> []) (zip fieldnames cells)) ?records"
  have written: "write_csv rows = Inr ?text" using assms by (rule write_csv_lines)
  have "2 \<le> length fieldnames" by (simp add: fieldnames_def)
  then have reread: "read_csv ?text = Some ?parsed"
    by (intro read_csv_lines) auto
  have len: "length ?parsed = length rows" by simp
  have fields: "field_text (?parsed ! i) f = field_text (snd (rows ! i)) f"
    if i: "i < length rows" for i f
  proof -
    obtain w r where row: "rows ! i = (w, r)" by (cases "rows ! i")
    with i have "(w, r) \<in> set rows" by (metis nth_mem)
    with assms have "case (w, r) of (w, r) \<Rightarrow> set (map fst r) \<subseteq> set fieldnames"
      by (rule bspec)
    then have keys: "set (map fst r) \<subseteq> set fieldnames" by simp
    have "?parsed ! i
        = filter (\<lambda>(k, v). v \<noteq> []) (zip fieldnames (map (field_text r) fieldnames))"
      using i row by simp
    then have "field_text (?parsed ! i) f = (if f \<in> set fieldnames then field_text r f else [])"
      by (simp only: field_text_reread)
    moreover have "field_text r f = []" if "f \<notin> set fieldnames"
      using that keys by (intro field_text_absent) auto
    ultimately show ?thesis using row by simp
  qed
  show ?thesis
    using written reread len fields by blast
qed

theorem csv_round_trip_witness:
  "\<exists>text parsed.
     write_csv
       [(''core'', [(''workload'', ''core''), (''parquet_size'', ''12.5''),
          (''vortex_size'', ''1.5''), (''lance_size'', ''2.25'')]),
        (''a,b'', [(''workload'', ''a,b''), (''lance_scan_time'', [CHR 0x22, CHR ''x'', CHR 0x0A]),
          (''vortex_scan_time'', '''')])] = Inr text
     \<and> read_csv text = Some parsed \<and> length parsed = 2
     \<and> field_text (parsed ! 0) ''parquet_size'' = ''12.5''
     \<and> field_text (parsed ! 0) ''lance_scan_time'' = ''''
     \<and> field_text (parsed ! 1) ''workload'' = ''a,b''
     \<and> field_text (parsed ! 1) ''lance_scan_time'' = [CHR 0x22, CHR ''x'', CHR 0x0A]
     \<and> field_text (parsed ! 1) ''vortex_scan_time'' = ''''"
proof -
  let ?rows = "[(''core'', [(''workload'', ''core''), (''parquet_size'', ''12.5''),
          (''vortex_size'', ''1.5''), (''lance_size'', ''2.25'')]),
        (''a,b'', [(''workload'', ''a,b''), (''lance_scan_time'', [CHR 0x22, CHR ''x'', CHR 0x0A]),
          (''vortex_scan_time'', '''')])]"
  have keys: "\<forall>(w, r) \<in> set ?rows. set (map fst r) \<subseteq> set fieldnames"
    by (simp add: fieldnames_def)
  from csv_round_trip [OF keys] obtain csv parsed where
    w: "write_csv ?rows = Inr csv" and r: "read_csv csv = Some parsed"
    and l: "length parsed = length ?rows"
    and f: "\<forall>i<length ?rows. \<forall>f. field_text (parsed ! i) f = field_text (snd (?rows ! i)) f"
    by blast
  have f0: "field_text (parsed ! 0) g = field_text (snd (?rows ! 0)) g" for g
    using f by simp
  have f1: "field_text (parsed ! 1) g = field_text (snd (?rows ! 1)) g" for g
    using f by simp
  have "length parsed = 2" using l by simp
  moreover have "field_text (parsed ! 0) ''parquet_size'' = ''12.5''"
    by (simp only: f0) (simp add: field_text_def)
  moreover have "field_text (parsed ! 0) ''lance_scan_time'' = ''''"
    by (simp only: f0) (simp add: field_text_def)
  moreover have "field_text (parsed ! 1) ''workload'' = ''a,b''"
    by (simp only: f1) (simp add: field_text_def)
  moreover have "field_text (parsed ! 1) ''lance_scan_time'' = [CHR 0x22, CHR ''x'', CHR 0x0A]"
    by (simp only: f1) (simp add: field_text_def)
  moreover have "field_text (parsed ! 1) ''vortex_scan_time'' = ''''"
    by (simp only: f1) (simp add: field_text_def)
  ultimately show ?thesis using w r by (intro exI [of _ csv] exI [of _ parsed]) simp
qed

text \<open>
  C10. A workload that completes more than one cluster. At any line of any log: when the
  line completes a cluster for a workload that already has a row, the commit adds no row
  (the keys of the table and their order stay) and the three fields of the metric in that
  row become the three values of this cluster. For the whole script, with the commits of
  each pass in order: the table is these commits made one after the other, it has one row
  for each workload committed however often it was committed, the size fields and the
  scan-time fields of a workload are the values of its last commit in the pass, and the
  line of the workload in the CSV text is made of these fields.
\<close>

theorem last_cluster_wins:
  "(let ds = process_lines ps m (data, all_none) pre;
        st = assign_line ps (snd ds) x;
        d' = fst (process_lines ps m (data, all_none) (pre @ [x]))
    in complete st \<and> current_workload st = Some w \<and> w \<in> set (map fst (fst ds)) \<longrightarrow>
         map fst d' = map fst (fst ds)
         \<and> (case m of
               SIZE \<Rightarrow> [cell d' w ''parquet_size'', cell d' w ''vortex_size'',
                 cell d' w ''lance_size'']
             | SCAN_TIME \<Rightarrow> [cell d' w ''parquet_scan_time'', cell d' w ''vortex_scan_time'',
                 cell d' w ''lance_scan_time''])
           = [current_parquet_metric st, current_vortex_metric st, current_lance_metric st])
   \<and> (let cs = commits size_patterns all_none (split_lines (strip compress_log));
          ct = commits scan_patterns all_none (split_lines (strip scan_log));
          D = result_table compress_log scan_log
      in D = commit_all SCAN_TIME (commit_all SIZE [] cs) ct
       \<and> distinct (map fst D)
       \<and> set (map fst D) = fst ` set cs \<union> fst ` set ct
       \<and> (\<forall>p v l. map_of (rev cs) w = Some (p, v, l) \<longrightarrow>
             cell D w ''parquet_size'' = Some p \<and> cell D w ''vortex_size'' = Some v
             \<and> cell D w ''lance_size'' = Some l)
       \<and> (\<forall>p v l. map_of (rev ct) w = Some (p, v, l) \<longrightarrow>
             cell D w ''parquet_scan_time'' = Some p \<and> cell D w ''vortex_scan_time'' = Some v
             \<and> cell D w ''lance_scan_time'' = Some l)
       \<and> get_result_csv compress_log scan_log
           = Inr (''workload,parquet_size,vortex_size,lance_size,''
               @ ''lance_scan_time,parquet_scan_time,vortex_scan_time'' @ [CHR 0x0D, CHR 0x0A]
               @ concat (map (\<lambda>w. join_fields
                     (map (\<lambda>f. case cell D w f of None \<Rightarrow> [] | Some v \<Rightarrow> v) fieldnames)
                     @ [CHR 0x0D, CHR 0x0A])
                   (map fst D))))"
proof -
  define cs where "cs = commits size_patterns all_none (split_lines (strip compress_log))"
  define ct where "ct = commits scan_patterns all_none (split_lines (strip scan_log))"
  define D where "D = result_table compress_log scan_log"
  obtain d st0 where run: "process_lines ps m (data, all_none) pre = (d, st0)"
    by (cases "process_lines ps m (data, all_none) pre")
  have step: "complete (assign_line ps st0 x) \<and> current_workload (assign_line ps st0 x) = Some w
      \<and> w \<in> set (map fst d) \<longrightarrow>
       map fst (fst (process_lines ps m (data, all_none) (pre @ [x]))) = map fst d
    \<and> (case m of
          SIZE \<Rightarrow> [cell (fst (process_lines ps m (data, all_none) (pre @ [x]))) w ''parquet_size'',
            cell (fst (process_lines ps m (data, all_none) (pre @ [x]))) w ''vortex_size'',
            cell (fst (process_lines ps m (data, all_none) (pre @ [x]))) w ''lance_size'']
        | SCAN_TIME \<Rightarrow>
           [cell (fst (process_lines ps m (data, all_none) (pre @ [x]))) w ''parquet_scan_time'',
            cell (fst (process_lines ps m (data, all_none) (pre @ [x]))) w ''vortex_scan_time'',
            cell (fst (process_lines ps m (data, all_none) (pre @ [x]))) w ''lance_scan_time''])
      = [current_parquet_metric (assign_line ps st0 x),
         current_vortex_metric (assign_line ps st0 x),
         current_lance_metric (assign_line ps st0 x)]"
    using later_cluster [OF run] by blast
  have D: "D = commit_all SCAN_TIME (commit_all SIZE [] cs) ct"
    by (simp add: D_def cs_def ct_def result_table_def process_log_def process_lines_commits)
  have "distinct (map fst (process_log [] compress_log size_patterns SIZE))"
    by (rule process_log_distinct) simp
  then have dist: "distinct (map fst D)"
    unfolding D_def result_table_def by (rule process_log_distinct)
  have keys: "set (map fst D) = fst ` set cs \<union> fst ` set ct"
    by (simp add: D keys_commit_all)
  have size: "\<forall>p v l. map_of (rev cs) w = Some (p, v, l) \<longrightarrow>
             cell D w ''parquet_size'' = Some p \<and> cell D w ''vortex_size'' = Some v
             \<and> cell D w ''lance_size'' = Some l"
    by (auto simp: D cell_commit_all assigned_def split: option.splits)
  have scan: "\<forall>p v l. map_of (rev ct) w = Some (p, v, l) \<longrightarrow>
             cell D w ''parquet_scan_time'' = Some p \<and> cell D w ''vortex_scan_time'' = Some v
             \<and> cell D w ''lance_scan_time'' = Some l"
    by (auto simp: D cell_commit_all assigned_def split: option.splits)
  have "get_result_csv compress_log scan_log
     = Inr (''workload,parquet_size,vortex_size,lance_size,''
         @ ''lance_scan_time,parquet_scan_time,vortex_scan_time'' @ [CHR 0x0D, CHR 0x0A]
         @ concat (map (\<lambda>(w, r). join_fields
               (map (\<lambda>f. case map_of r f of None \<Rightarrow> [] | Some v \<Rightarrow> v) fieldnames)
               @ [CHR 0x0D, CHR 0x0A]) D))"
    using write_rows_plain [OF result_table_plain, of compress_log scan_log]
    by (simp only: get_result_csv_def write_csv_def writeheader_text sum.case append_assoc D_def)
  also have "map (\<lambda>(w, r). join_fields
               (map (\<lambda>f. case map_of r f of None \<Rightarrow> [] | Some v \<Rightarrow> v) fieldnames)
               @ [CHR 0x0D, CHR 0x0A]) D
      = map (\<lambda>w. join_fields
               (map (\<lambda>f. case cell D w f of None \<Rightarrow> [] | Some v \<Rightarrow> v) fieldnames)
               @ [CHR 0x0D, CHR 0x0A]) (map fst D)"
    using rows_by_key [OF dist, of "\<lambda>g. join_fields
               (map (\<lambda>f. case g f of None \<Rightarrow> [] | Some v \<Rightarrow> v) fieldnames)
               @ [CHR 0x0D, CHR 0x0A]"] .
  finally have csv: "get_result_csv compress_log scan_log
     = Inr (''workload,parquet_size,vortex_size,lance_size,''
         @ ''lance_scan_time,parquet_scan_time,vortex_scan_time'' @ [CHR 0x0D, CHR 0x0A]
         @ concat (map (\<lambda>w. join_fields
               (map (\<lambda>f. case cell D w f of None \<Rightarrow> [] | Some v \<Rightarrow> v) fieldnames)
               @ [CHR 0x0D, CHR 0x0A]) (map fst D)))" .
  show ?thesis
    unfolding Let_def run snd_conv fst_conv cs_def [symmetric] ct_def [symmetric]
      D_def [symmetric]
    by (rule conjI [OF step conjI [OF D conjI [OF dist conjI [OF keys conjI [OF size
          conjI [OF scan csv]]]]]])
qed

theorem last_cluster_wins_witness:
  "let c = ''/parquet/core.parquet\<newline>Parquet size: 12.5 MB, 13107200B\<newline>Vortex size: 1.5 MB, 1572864B\<newline>Lance directory aggregate size: 2.25 MB, 2359296B\<newline>/parquet/lineitem.parquet\<newline>Parquet size: 3.0 MB, 3145728B\<newline>Vortex size: 4.0 MB, 4194304B\<newline>Lance directory aggregate size: 5.0 MB, 5242880B\<newline>/parquet/core.parquet\<newline>Parquet size: 7.0 MB, 7340032B\<newline>Vortex size: 8.0 MB, 8388608B\<newline>Lance directory aggregate size: 9.0 MB, 9437184B\<newline>'';
       pre = [''/parquet/core.parquet'', ''Parquet size: 12.5 MB, 13107200B'',
         ''Vortex size: 1.5 MB, 1572864B'', ''Lance directory aggregate size: 2.25 MB, 2359296B'',
         ''/parquet/lineitem.parquet'', ''Parquet size: 3.0 MB, 3145728B'',
         ''Vortex size: 4.0 MB, 4194304B'', ''Lance directory aggregate size: 5.0 MB, 5242880B'',
         ''/parquet/core.parquet'', ''Parquet size: 7.0 MB, 7340032B'',
         ''Vortex size: 8.0 MB, 8388608B''];
       x = ''Lance directory aggregate size: 9.0 MB, 9437184B'';
       D = result_table c []
   in split_lines (strip c) = pre @ [x]
    \<and> map fst (fst (process_lines size_patterns SIZE ([], all_none) (pre @ [x])))
        = map fst (fst (process_lines size_patterns SIZE ([], all_none) pre))
    \<and> map fst D = [''core'', ''lineitem'']
    \<and> cell D ''core'' ''parquet_size'' = Some ''7.0''
    \<and> cell D ''core'' ''vortex_size'' = Some ''8.0''
    \<and> cell D ''core'' ''lance_size'' = Some ''9.0''"
proof -
  let ?c = "''/parquet/core.parquet\<newline>Parquet size: 12.5 MB, 13107200B\<newline>Vortex size: 1.5 MB, 1572864B\<newline>Lance directory aggregate size: 2.25 MB, 2359296B\<newline>/parquet/lineitem.parquet\<newline>Parquet size: 3.0 MB, 3145728B\<newline>Vortex size: 4.0 MB, 4194304B\<newline>Lance directory aggregate size: 5.0 MB, 5242880B\<newline>/parquet/core.parquet\<newline>Parquet size: 7.0 MB, 7340032B\<newline>Vortex size: 8.0 MB, 8388608B\<newline>Lance directory aggregate size: 9.0 MB, 9437184B\<newline>''"
  let ?pre = "[''/parquet/core.parquet'', ''Parquet size: 12.5 MB, 13107200B'',
         ''Vortex size: 1.5 MB, 1572864B'', ''Lance directory aggregate size: 2.25 MB, 2359296B'',
         ''/parquet/lineitem.parquet'', ''Parquet size: 3.0 MB, 3145728B'',
         ''Vortex size: 4.0 MB, 4194304B'', ''Lance directory aggregate size: 5.0 MB, 5242880B'',
         ''/parquet/core.parquet'', ''Parquet size: 7.0 MB, 7340032B'',
         ''Vortex size: 8.0 MB, 8388608B'']"
  let ?x = "''Lance directory aggregate size: 9.0 MB, 9437184B''"
  have lines: "split_lines (strip ?c) = ?pre @ [?x]" by code_simp
  have h1: "complete (assign_line size_patterns
        (snd (process_lines size_patterns SIZE ([], all_none) ?pre)) ?x)
      \<and> current_workload (assign_line size_patterns
        (snd (process_lines size_patterns SIZE ([], all_none) ?pre)) ?x) = Some ''core''
      \<and> ''core'' \<in> set (map fst (fst (process_lines size_patterns SIZE ([], all_none) ?pre)))"
    by code_simp
  have h2: "map_of (rev (commits size_patterns all_none (split_lines (strip ?c)))) ''core''
      = Some (''7.0'', ''8.0'', ''9.0'')"
    by code_simp
  have keys: "map fst (result_table ?c []) = [''core'', ''lineitem'']" by code_simp
  note t = last_cluster_wins [of size_patterns SIZE "[]" ?pre ?x "''core''" ?c "[]",
      unfolded Let_def]
  have step: "map fst (fst (process_lines size_patterns SIZE ([], all_none) (?pre @ [?x])))
        = map fst (fst (process_lines size_patterns SIZE ([], all_none) ?pre))"
    by (rule t [THEN conjunct1, THEN mp, OF h1, THEN conjunct1])
  note cells = t [THEN conjunct2, THEN conjunct2, THEN conjunct2, THEN conjunct2,
      THEN conjunct1, THEN spec, THEN spec, THEN spec, THEN mp, OF h2]
  show ?thesis
    unfolding Let_def
    by (rule conjI [OF lines conjI [OF step conjI [OF keys cells]]])
qed

end
